theory Spec2Isabelle
  imports Complex_Main "HOL-Library.Sublist"
begin

section \<open>JavaScript strings\<close>

text \<open>
  A JavaScript string is modelled as a \<^typ>\<open>string\<close>: a list of 8-bit characters, read as
  the UTF-16 code units below 256 (Latin-1). Strings with other code units are outside the
  model.
\<close>

text \<open>\<^verbatim>\<open>String.prototype.startsWith\<close>.\<close>

definition startsWith :: "string \<Rightarrow> string \<Rightarrow> bool" where
  "startsWith s p = (take (length p) s = p)"

text \<open>\<^verbatim>\<open>String.prototype.includes\<close>: some suffix of \<open>s\<close> starts with \<open>sub\<close>.\<close>

fun includes_js :: "string \<Rightarrow> string \<Rightarrow> bool" where
  "includes_js [] sub = (sub = [])"
| "includes_js (c # cs) sub = (startsWith (c # cs) sub \<or> includes_js cs sub)"

text \<open>
  \<^verbatim>\<open>String.prototype.toLowerCase\<close> on Latin-1 code units: A-Z and the accented capitals
  0xC0-0xDE (without the multiplication sign 0xD7) move up by 32.
\<close>

definition upperChars :: string where
  "upperChars = ''ABCDEFGHIJKLMNOPQRSTUVWXYZ'' @
     [CHR 0xC0, CHR 0xC1, CHR 0xC2, CHR 0xC3, CHR 0xC4, CHR 0xC5, CHR 0xC6, CHR 0xC7,
      CHR 0xC8, CHR 0xC9, CHR 0xCA, CHR 0xCB, CHR 0xCC, CHR 0xCD, CHR 0xCE, CHR 0xCF,
      CHR 0xD0, CHR 0xD1, CHR 0xD2, CHR 0xD3, CHR 0xD4, CHR 0xD5, CHR 0xD6,
      CHR 0xD8, CHR 0xD9, CHR 0xDA, CHR 0xDB, CHR 0xDC, CHR 0xDD, CHR 0xDE]"

definition lowerChars :: string where
  "lowerChars = ''abcdefghijklmnopqrstuvwxyz'' @
     [CHR 0xE0, CHR 0xE1, CHR 0xE2, CHR 0xE3, CHR 0xE4, CHR 0xE5, CHR 0xE6, CHR 0xE7,
      CHR 0xE8, CHR 0xE9, CHR 0xEA, CHR 0xEB, CHR 0xEC, CHR 0xED, CHR 0xEE, CHR 0xEF,
      CHR 0xF0, CHR 0xF1, CHR 0xF2, CHR 0xF3, CHR 0xF4, CHR 0xF5, CHR 0xF6,
      CHR 0xF8, CHR 0xF9, CHR 0xFA, CHR 0xFB, CHR 0xFC, CHR 0xFD, CHR 0xFE]"

definition lowerChar :: "char \<Rightarrow> char" where
  "lowerChar c = (case map_of (zip upperChars lowerChars) c of Some l \<Rightarrow> l | None \<Rightarrow> c)"

definition toLowerCase :: "string \<Rightarrow> string" where
  "toLowerCase s = map lowerChar s"

text \<open>The class \<^verbatim>\<open>\s\<close> of a regular expression, on code units below 256.\<close>

definition isSpace :: "char \<Rightarrow> bool" where
  "isSpace c = (c \<in> set [CHR 0x09, CHR 0x0A, CHR 0x0B, CHR 0x0C, CHR 0x0D, CHR '' '', CHR 0xA0])"

section \<open>Errors and observable effects\<close>

text \<open>
  A thrown \<^verbatim>\<open>Error\<close> object; \<open>message\<close> is \<open>None\<close> when the thrown value has no
  \<^verbatim>\<open>message\<close> property. A present message is a string.
\<close>

datatype js_error = Error (message: "string option")

text \<open>
  The effects of a call, in order: an invocation of the operation wrapped by \<open>withRetry\<close>
  (its index and what it did itself), a \<^verbatim>\<open>setTimeout\<close> wait in milliseconds, the
  \<^verbatim>\<open>console.error\<close> of \<open>cleanAndParseJson\<close> with the text it was given, and the
  \<^verbatim>\<open>fetch\<close> of \<open>callDeepSeek\<close> with its two prompts. The other console diagnostics are
  not recorded.
\<close>

datatype event =
    Attempt nat "event list"
  | Wait int
  | ConsoleError "string option"
  | DeepSeekFetch string string

text \<open>A computation: what it did, and the value it returned or the error it threw.\<close>

type_synonym ('e, 'a) io = "event list \<times> ('e + 'a)"

section \<open>withRetry\<close>

text \<open>
  \<^verbatim>\<open>
  const isInternalError = error.message?.toLowerCase().includes("internal error") ||
                          error.message?.includes("500") ||
                          error.message?.includes("503");
  \<close>
\<close>

definition isInternalError :: "js_error \<Rightarrow> bool" where
  "isInternalError error =
     (case message error of
        None \<Rightarrow> False
      | Some m \<Rightarrow> includes_js (toLowerCase m) ''internal error'' \<or> includes_js m ''500'' \<or> includes_js m ''503'')"

text \<open>\<^verbatim>\<open>delayMs *= 2\<close>: the factor of the backoff is a constant of the code.\<close>

definition backoffMultiplier :: int where
  "backoffMultiplier = 2"

text \<open>
  The loop \<^verbatim>\<open>for (let i = 0; i < retries; i++)\<close> of \<open>withRetry\<close>. The operation \<open>fn\<close>
  is given by what its \<open>i\<close>-th invocation (counted from 0) does and returns. The thrown
  value is \<open>None\<close> for \<^verbatim>\<open>undefined\<close>, the initial \<open>lastError\<close>. Delays are exact
  integers of milliseconds.
\<close>

function withRetry_loop ::
  "(nat \<Rightarrow> (js_error, 'a) io) \<Rightarrow> nat \<Rightarrow> nat \<Rightarrow> int \<Rightarrow> js_error option \<Rightarrow> (js_error option, 'a) io"
where
  "withRetry_loop fn retries i delayMs lastError =
     (if i < retries then
        (case fn i of
           (evs, Inr v) \<Rightarrow> ([Attempt i evs], Inr v)
         | (evs, Inl error) \<Rightarrow>
             if isInternalError error \<and> i < retries - 1 then
               (case withRetry_loop fn retries (i + 1) (delayMs * backoffMultiplier) (Some error) of
                  (rest, r) \<Rightarrow> (Attempt i evs # Wait delayMs # rest, r))
             else ([Attempt i evs], Inl (Some error)))
      else ([], Inl lastError))"
  by pat_completeness auto
termination
  by (relation "measure (\<lambda>(fn, retries, i, delayMs, lastError). retries - i)") auto

declare withRetry_loop.simps [simp del]

definition withRetry :: "(nat \<Rightarrow> (js_error, 'a) io) \<Rightarrow> nat \<Rightarrow> int \<Rightarrow> (js_error option, 'a) io" where
  "withRetry fn retries delayMs = withRetry_loop fn retries 0 delayMs None"

text \<open>The default arguments \<^verbatim>\<open>retries = 3, delayMs = 1000\<close>.\<close>

definition withRetry_default :: "(nat \<Rightarrow> (js_error, 'a) io) \<Rightarrow> (js_error option, 'a) io" where
  "withRetry_default fn = withRetry fn 3 1000"

text \<open>The number of invocations of the wrapped operation, and the waits, in a trace.\<close>

fun isAttempt :: "event \<Rightarrow> bool" where
  "isAttempt (Attempt i evs) = True"
| "isAttempt _ = False"

definition attempts :: "event list \<Rightarrow> nat" where
  "attempts trace = length (filter isAttempt trace)"

fun waits :: "event list \<Rightarrow> int list" where
  "waits [] = []"
| "waits (Wait d # trace) = d # waits trace"
| "waits (_ # trace) = waits trace"

text \<open>
  The trace of a run that makes the invocations \<open>i, \<dots>, k\<close>: after each invocation but
  the last, a wait that starts at \<open>d\<close> and is multiplied at every round.
\<close>

definition retry_trace :: "(nat \<Rightarrow> (js_error, 'a) io) \<Rightarrow> int \<Rightarrow> nat \<Rightarrow> nat \<Rightarrow> event list" where
  "retry_trace fn d i k =
     concat (map (\<lambda>j. [Attempt j (fst (fn j)), Wait (d * backoffMultiplier ^ (j - i))]) [i..<k])
     @ [Attempt k (fst (fn k))]"

text \<open>
  Invocation \<open>k\<close> ends the loop: it succeeds, or it fails with an error that is not
  retried, or it is the last one allowed.
\<close>

definition stopsAt :: "(nat \<Rightarrow> (js_error, 'a) io) \<Rightarrow> nat \<Rightarrow> nat \<Rightarrow> bool" where
  "stopsAt fn retries k =
     (case snd (fn k) of Inr v \<Rightarrow> True | Inl e \<Rightarrow> \<not> isInternalError e \<or> k = retries - 1)"

section \<open>mergeShortSegments\<close>

text \<open>
  \<open>TranscriptionSegment\<close>. The fields \<open>end\<close> and \<open>text\<close> carry a prime. A time is the
  real value of a finite double; \<^verbatim>\<open>NaN\<close> and the infinities are outside the model.
\<close>

record segment =
  start :: real
  end' :: real
  text' :: string
  translation :: string
  idiomatic :: string
  idiomExplanation :: string
  isFavorite :: "bool option"

text \<open>
  \<^verbatim>\<open>s.split(/\s+/)\<close>: the pieces between the maximal runs of whitespace. A string without
  whitespace (the empty one too) is one piece; a run at either end leaves an empty piece
  there.
\<close>

function split_space :: "string \<Rightarrow> string list" where
  "split_space s =
     (let rest = dropWhile (\<lambda>c. \<not> isSpace c) s
      in if rest = [] then [s]
         else takeWhile (\<lambda>c. \<not> isSpace c) s # split_space (dropWhile isSpace rest))"
  by pat_completeness auto
termination
proof (relation "measure length")
  fix s rest
  assume r: "rest = dropWhile (\<lambda>c. \<not> isSpace c) s" and ne: "rest \<noteq> []"
  have "isSpace (hd rest)" using r ne hd_dropWhile[of "\<lambda>c. \<not> isSpace c" s] by auto
  then have "length (dropWhile isSpace rest) < length rest"
    using ne by (cases rest) (auto simp: le_imp_less_Suc length_dropWhile_le)
  moreover have "length rest \<le> length s" using r by (simp add: length_dropWhile_le)
  ultimately show "(dropWhile isSpace rest, s) \<in> measure length" by simp
qed simp

declare split_space.simps [simp del]

text \<open>
  The words of a text in the plain sense, for comparison: the maximal runs of characters
  that are not whitespace.
\<close>

function wordsOf :: "string \<Rightarrow> string list" where
  "wordsOf s =
     (let t = dropWhile isSpace s
      in if t = [] then []
         else takeWhile (\<lambda>c. \<not> isSpace c) t # wordsOf (dropWhile (\<lambda>c. \<not> isSpace c) t))"
  by pat_completeness auto
termination
proof (relation "measure length")
  fix s t :: string
  assume t: "t = dropWhile isSpace s" and ne: "t \<noteq> []"
  have "\<not> isSpace (hd t)" using t ne hd_dropWhile[of isSpace s] by simp
  then have "length (dropWhile (\<lambda>c. \<not> isSpace c) t) < length t"
    using ne by (cases t) (auto simp: le_imp_less_Suc length_dropWhile_le)
  moreover have "length t \<le> length s" using t by (simp add: length_dropWhile_le)
  ultimately show "(dropWhile (\<lambda>c. \<not> isSpace c) t, s) \<in> measure length" by simp
qed simp

declare wordsOf.simps [simp del]

definition MIN_WORDS :: nat where
  "MIN_WORDS = 4"

text \<open>
  \<^verbatim>\<open>
  current = { ...current, end: next.end,
    text: `${current.text} ${next.text}`,
    translation: `${current.translation} ${next.translation}`,
    idiomatic: next.idiomatic || current.idiomatic,
    idiomExplanation: next.idiomExplanation || current.idiomExplanation };
  \<close>
\<close>

definition mergeInto :: "segment \<Rightarrow> segment \<Rightarrow> segment" where
  "mergeInto current next =
     current\<lparr> end' := end' next,
              text' := text' current @ '' '' @ text' next,
              translation := translation current @ '' '' @ translation next,
              idiomatic := (if idiomatic next \<noteq> [] then idiomatic next else idiomatic current),
              idiomExplanation :=
                (if idiomExplanation next \<noteq> [] then idiomExplanation next
                 else idiomExplanation current) \<rparr>"

text \<open>
  The subtraction of binary64 numbers, which \<^verbatim>\<open>current.end - current.start\<close> is: the exact
  difference rounded to the nearest double, a tie going to the even significand.
  \<open>exponent64 x\<close> is the exponent of \<open>x\<close>, searched from 1023 downwards and held at -1022
  where the subnormal numbers begin; the doubles next to \<open>x\<close> are the multiples of
  \<open>2 powi (exponent64 x - 52)\<close>. A difference beyond the largest double is
  \<^verbatim>\<open>Infinity\<close> in JavaScript and a real of at least \<open>2 powi 1024\<close> here; the test
  \<^verbatim>\<open>duration < 2.0\<close> is false of both.
\<close>

fun exponentSearch :: "real \<Rightarrow> nat \<Rightarrow> int" where
  "exponentSearch a 0 = - 1022"
| "exponentSearch a (Suc n) =
     (if 2 powi (int (Suc n) - 1022) \<le> a then int (Suc n) - 1022 else exponentSearch a n)"

definition exponent64 :: "real \<Rightarrow> int" where
  "exponent64 x = exponentSearch \<bar>x\<bar> 2045"

definition roundHalfEven :: "real \<Rightarrow> int" where
  "roundHalfEven y =
     (let f = \<lfloor>y\<rfloor>; r = y - of_int f
      in if r < 1 / 2 then f else if 1 / 2 < r then f + 1 else if even f then f else f + 1)"

definition round64 :: "real \<Rightarrow> real" where
  "round64 x =
     (let ulp = 2 powi (exponent64 x - 52)
      in of_int (roundHalfEven (x / ulp)) * ulp)"

definition fsub :: "real \<Rightarrow> real \<Rightarrow> real" where
  "fsub a b = round64 (a - b)"

text \<open>The test \<^verbatim>\<open>currentWordCount < MIN_WORDS && duration < 2.0\<close> on the accumulator.\<close>

definition isShort :: "segment \<Rightarrow> bool" where
  "isShort current =
     (let currentWordCount = length (split_space (text' current));
          duration = fsub (end' current) (start current)
      in currentWordCount < MIN_WORDS \<and> duration < 2.0)"

text \<open>
  The loop \<^verbatim>\<open>for (let i = 1; i < segments.length; i++)\<close>: the accumulator \<open>current\<close>, the
  array \<open>merged\<close> built so far, and the segments still to read.
\<close>

fun mergeShortSegments_loop :: "segment \<Rightarrow> segment list \<Rightarrow> segment list \<Rightarrow> segment list" where
  "mergeShortSegments_loop current merged [] = merged @ [current]"
| "mergeShortSegments_loop current merged (next # rest) =
     (if isShort current
      then mergeShortSegments_loop (mergeInto current next) merged rest
      else mergeShortSegments_loop next (merged @ [current]) rest)"

definition mergeShortSegments :: "segment list \<Rightarrow> segment list" where
  "mergeShortSegments segments =
     (if length segments = 0 then []
      else mergeShortSegments_loop (segments ! 0) [] (drop 1 segments))"

text \<open>The orderings of a segment list that the transcription result promises.\<close>

definition startOrdered :: "segment list \<Rightarrow> bool" where
  "startOrdered segs = sorted (map start segs)"

definition nonOverlapping :: "segment list \<Rightarrow> bool" where
  "nonOverlapping segs = successively (\<lambda>a b. end' a \<le> start b) segs"

section \<open>getCorrectMimeType\<close>

text \<open>The two properties of a \<^verbatim>\<open>File\<close> that the function reads; \<open>type\<close> carries a prime.\<close>

record js_file =
  name :: string
  type' :: string

text \<open>
  A value that a property read of \<open>knownMimeTypes\<close> can give: a string, or a member that
  the object literal inherits from \<^verbatim>\<open>Object.prototype\<close> (a function, or the prototype
  object itself), named by its key.
\<close>

datatype js_value = JsString string | Inherited string

definition knownMimeTypes :: "(string \<times> string) list" where
  "knownMimeTypes =
     [(''mp3'', ''audio/mp3''),
      (''wav'', ''audio/wav''),
      (''flac'', ''audio/flac''),
      (''m4a'', ''audio/mp4''),
      (''aac'', ''audio/aac''),
      (''ogg'', ''audio/ogg''),
      (''oga'', ''audio/ogg''),
      (''webm'', ''audio/webm''),
      (''mp4'', ''audio/mp4'')]"

text \<open>The property names of \<^verbatim>\<open>Object.prototype\<close>, which every object literal inherits.\<close>

definition objectPrototypeKeys :: "string list" where
  "objectPrototypeKeys =
     [''constructor'', ''__defineGetter__'', ''__defineSetter__'', ''hasOwnProperty'',
      ''__lookupGetter__'', ''__lookupSetter__'', ''isPrototypeOf'', ''propertyIsEnumerable'',
      ''toString'', ''valueOf'', ''__proto__'', ''toLocaleString'']"

text \<open>
  The property read \<^verbatim>\<open>obj[key]\<close> on an object literal with string values: the own
  property when there is one, else the inherited member, else \<^verbatim>\<open>undefined\<close> (\<open>None\<close>).
\<close>

definition getProperty :: "(string \<times> string) list \<Rightarrow> string \<Rightarrow> js_value option" where
  "getProperty obj key =
     (case map_of obj key of
        Some v \<Rightarrow> Some (JsString v)
      | None \<Rightarrow> if key \<in> set objectPrototypeKeys then Some (Inherited key) else None)"

text \<open>Truthiness: the empty string and \<^verbatim>\<open>undefined\<close> are falsy, functions and objects truthy.\<close>

fun truthy :: "js_value option \<Rightarrow> bool" where
  "truthy None = False"
| "truthy (Some (JsString s)) = (s \<noteq> [])"
| "truthy (Some (Inherited k)) = True"

text \<open>\<^verbatim>\<open>s.split(c)\<close> for a one-character separator: the pieces between its occurrences.\<close>

function split_char :: "char \<Rightarrow> string \<Rightarrow> string list" where
  "split_char c s =
     (let rest = dropWhile (\<lambda>x. x \<noteq> c) s
      in if rest = [] then [s]
         else takeWhile (\<lambda>x. x \<noteq> c) s # split_char c (tl rest))"
  by pat_completeness auto
termination
proof (relation "measure (\<lambda>(c, s). length s)")
  fix c :: char and s rest :: string
  assume r: "rest = dropWhile (\<lambda>x. x \<noteq> c) s" and ne: "rest \<noteq> []"
  have "length (tl rest) < length rest" using ne by (cases rest) auto
  moreover have "length rest \<le> length s" using r by (simp add: length_dropWhile_le)
  ultimately show "((c, tl rest), (c, s)) \<in> measure (\<lambda>(c, s). length s)" by simp
qed simp

declare split_char.simps [simp del]

text \<open>\<^verbatim>\<open>Array.prototype.pop\<close>, for its value: the last element, \<^verbatim>\<open>undefined\<close> on \<open>[]\<close>.\<close>

definition pop :: "'a list \<Rightarrow> 'a option" where
  "pop xs = (if xs = [] then None else Some (last xs))"

definition getCorrectMimeType :: "js_file \<Rightarrow> js_value" where
  "getCorrectMimeType file =
     (if type' file \<noteq> [] \<and>
         (startsWith (type' file) ''audio/'' \<or> startsWith (type' file) ''video/'')
      then JsString (type' file)
      else
        (case map_option toLowerCase (pop (split_char CHR ''.'' (name file))) of
           None \<Rightarrow> JsString ''audio/mp3''
         | Some ext \<Rightarrow>
             if ext \<noteq> [] \<and> truthy (getProperty knownMimeTypes ext)
             then (case getProperty knownMimeTypes ext of
                     Some v \<Rightarrow> v
                   | None \<Rightarrow> JsString ''audio/mp3'')
             else JsString ''audio/mp3''))"

text \<open>
  The resolver in the words of the specification: a declared type that starts with
  \<open>audio/\<close> or \<open>video/\<close> is returned as it is; otherwise the text after the final dot of
  the name, lower-cased, is looked up in the table, and \<open>audio/mp3\<close> is the default.
\<close>

definition extension :: "string \<Rightarrow> string" where
  "extension n = rev (takeWhile (\<lambda>c. c \<noteq> CHR ''.'') (rev n))"

definition resolveMime :: "js_file \<Rightarrow> string" where
  "resolveMime file =
     (if type' file \<noteq> [] \<and>
         (startsWith (type' file) ''audio/'' \<or> startsWith (type' file) ''video/'')
      then type' file
      else (case map_of knownMimeTypes (toLowerCase (extension (name file))) of
              Some m \<Rightarrow> m
            | None \<Rightarrow> ''audio/mp3''))"

section \<open>cleanAndParseJson\<close>

subsection \<open>A model of \<^verbatim>\<open>JSON.parse\<close>\<close>

text \<open>
  \<^verbatim>\<open>JSON.parse\<close> belongs to the platform, not to the repository. The model follows the
  JSON grammar (ECMA-404) and builds the document tree; a number and the inside of a
  string are kept as written, so no conversion to a double and no unescaping takes place,
  and the members of an object are kept in order, repeated names included.
\<close>

datatype json =
    JNull
  | JBool bool
  | JNumber string
  | JStr string
  | JArray "json list"
  | JObject "(string \<times> json) list"

definition isJsonSpace :: "char \<Rightarrow> bool" where
  "isJsonSpace c = (c \<in> set [CHR '' '', CHR 0x09, CHR 0x0A, CHR 0x0D])"

definition skipSpace :: "string \<Rightarrow> string" where
  "skipSpace s = dropWhile isJsonSpace s"

definition isDigit :: "char \<Rightarrow> bool" where
  "isDigit c = (c \<in> set ''0123456789'')"

definition isHex :: "char \<Rightarrow> bool" where
  "isHex c = (c \<in> set ''0123456789abcdefABCDEF'')"

definition controlChars :: string where
  "controlChars =
     [CHR 0x00, CHR 0x01, CHR 0x02, CHR 0x03, CHR 0x04, CHR 0x05, CHR 0x06, CHR
      0x07, CHR 0x08, CHR 0x09, CHR 0x0A, CHR 0x0B, CHR 0x0C, CHR 0x0D, CHR 0x0E,
      CHR 0x0F, CHR 0x10, CHR 0x11, CHR 0x12, CHR 0x13, CHR 0x14, CHR 0x15, CHR
      0x16, CHR 0x17, CHR 0x18, CHR 0x19, CHR 0x1A, CHR 0x1B, CHR 0x1C, CHR 0x1D,
      CHR 0x1E, CHR 0x1F]"

text \<open>The characters of a string after its opening quote, up to the closing one.\<close>

fun parse_chars :: "string \<Rightarrow> (string \<times> string) option" where
  "parse_chars [] = None"
| "parse_chars (c # cs) =
     (if c = CHR 0x22 then Some ([], cs)
      else if c = CHR 0x5C then
        (case cs of
           [] \<Rightarrow> None
         | e # cs' \<Rightarrow>
             if e \<in> set [CHR 0x22, CHR 0x5C, CHR ''/'', CHR ''b'', CHR ''f'', CHR ''n'', CHR ''r'', CHR ''t'']
             then map_option (apfst (\<lambda>str. c # e # str)) (parse_chars cs')
             else if e = CHR ''u'' \<and> 4 \<le> length cs' \<and> list_all isHex (take 4 cs')
             then map_option (apfst (\<lambda>str. c # e # take 4 cs' @ str)) (parse_chars (drop 4 cs'))
             else None)
      else if c \<in> set controlChars then None
      else map_option (apfst (\<lambda>str. c # str)) (parse_chars cs))"

text \<open>A run of digits that must not be empty.\<close>

definition parse_digits :: "string \<Rightarrow> (string \<times> string) option" where
  "parse_digits s =
     (if takeWhile isDigit s = [] then None
      else Some (takeWhile isDigit s, dropWhile isDigit s))"

text \<open>A number: an optional minus, the integer part, an optional fraction and exponent.\<close>

definition parse_sign :: "string \<Rightarrow> string \<times> string" where
  "parse_sign s = (if startsWith s ''-'' then (''-'', drop 1 s) else ([], s))"

definition parse_int :: "string \<Rightarrow> (string \<times> string) option" where
  "parse_int s = (if startsWith s ''0'' then Some (''0'', drop 1 s) else parse_digits s)"

definition parse_frac :: "string \<Rightarrow> (string \<times> string) option" where
  "parse_frac s =
     (if startsWith s ''.''
      then map_option (apfst (\<lambda>ds. ''.'' @ ds)) (parse_digits (drop 1 s))
      else Some ([], s))"

definition parse_exp :: "string \<Rightarrow> (string \<times> string) option" where
  "parse_exp s =
     (if startsWith s ''e'' \<or> startsWith s ''E'' then
        (if startsWith (drop 1 s) ''+'' \<or> startsWith (drop 1 s) ''-''
         then map_option (apfst (\<lambda>ds. take 2 s @ ds)) (parse_digits (drop 2 s))
         else map_option (apfst (\<lambda>ds. take 1 s @ ds)) (parse_digits (drop 1 s)))
      else Some ([], s))"

definition parse_number :: "string \<Rightarrow> (string \<times> string) option" where
  "parse_number s =
     (case parse_sign s of
        (sign, s1) \<Rightarrow>
          (case parse_int s1 of
             None \<Rightarrow> None
           | Some (ip, s2) \<Rightarrow>
               (case parse_frac s2 of
                  None \<Rightarrow> None
                | Some (fp, s3) \<Rightarrow>
                    (case parse_exp s3 of
                       None \<Rightarrow> None
                     | Some (ep, r) \<Rightarrow> Some (sign @ ip @ fp @ ep, r)))))"

text \<open>
  Recursive descent over values, array elements and object members. The first argument
  bounds the depth of the recursion.
\<close>

fun parse_value :: "nat \<Rightarrow> string \<Rightarrow> (json \<times> string) option"
  and parse_elements :: "nat \<Rightarrow> string \<Rightarrow> (json list \<times> string) option"
  and parse_members :: "nat \<Rightarrow> string \<Rightarrow> ((string \<times> json) list \<times> string) option"
where
  "parse_value 0 s = None"
| "parse_value (Suc n) s =
     (case skipSpace s of
        [] \<Rightarrow> None
      | c # cs \<Rightarrow>
          if c = CHR ''{'' then
            (if startsWith (skipSpace cs) ''}'' then Some (JObject [], drop 1 (skipSpace cs))
             else map_option (apfst JObject) (parse_members n cs))
          else if c = CHR ''['' then
            (if startsWith (skipSpace cs) '']'' then Some (JArray [], drop 1 (skipSpace cs))
             else map_option (apfst JArray) (parse_elements n cs))
          else if c = CHR 0x22 then map_option (apfst JStr) (parse_chars cs)
          else if startsWith (c # cs) ''true'' then Some (JBool True, drop 4 (c # cs))
          else if startsWith (c # cs) ''false'' then Some (JBool False, drop 5 (c # cs))
          else if startsWith (c # cs) ''null'' then Some (JNull, drop 4 (c # cs))
          else map_option (apfst JNumber) (parse_number (c # cs)))"
| "parse_elements 0 s = None"
| "parse_elements (Suc n) s =
     (case parse_value n s of
        None \<Rightarrow> None
      | Some (v, r) \<Rightarrow>
          (case skipSpace r of
             [] \<Rightarrow> None
           | c # cs \<Rightarrow>
               if c = CHR '','' then map_option (apfst (\<lambda>vs. v # vs)) (parse_elements n cs)
               else if c = CHR '']'' then Some ([v], cs)
               else None))"
| "parse_members 0 s = None"
| "parse_members (Suc n) s =
     (case skipSpace s of
        [] \<Rightarrow> None
      | q # s1 \<Rightarrow>
          if q \<noteq> CHR 0x22 then None
          else
            (case parse_chars s1 of
               None \<Rightarrow> None
             | Some (k, s2) \<Rightarrow>
                 (case skipSpace s2 of
                    [] \<Rightarrow> None
                  | colon # s3 \<Rightarrow>
                      if colon \<noteq> CHR '':'' then None
                      else
                        (case parse_value n s3 of
                           None \<Rightarrow> None
                         | Some (v, r) \<Rightarrow>
                             (case skipSpace r of
                                [] \<Rightarrow> None
                              | c # cs \<Rightarrow>
                                  if c = CHR '','' then
                                    map_option (apfst (\<lambda>ms. (k, v) # ms)) (parse_members n cs)
                                  else if c = CHR ''}'' then Some ([(k, v)], cs)
                                  else None)))))"

text \<open>
  \<^verbatim>\<open>JSON.parse(text)\<close>: one value with nothing but whitespace after it; \<open>None\<close> stands
  for the \<^verbatim>\<open>SyntaxError\<close> it throws. The depth bound is twice the length of the text
  and two, which no text needs in full (\<open>JSON_parse_fuel\<close>).
\<close>

definition JSON_parse :: "string \<Rightarrow> json option" where
  "JSON_parse text =
     (case parse_value (2 * length text + 2) text of
        None \<Rightarrow> None
      | Some (v, r) \<Rightarrow> if skipSpace r = [] then Some v else None)"

text \<open>
  For reasoning about the parser: \<open>consumes s r\<close> says that \<open>r\<close> is what is left of \<open>s\<close>
  after a part that is not empty and does not end in a backquote; \<open>reaches\<close> allows the
  part to be empty.
\<close>

definition consumes :: "string \<Rightarrow> string \<Rightarrow> bool" where
  "consumes s r = (\<exists>p. s = p @ r \<and> p \<noteq> [] \<and> last p \<noteq> CHR 0x60)"

definition reaches :: "string \<Rightarrow> string \<Rightarrow> bool" where
  "reaches s r = (r = s \<or> consumes s r)"

subsection \<open>The two replacements and the parse\<close>

text \<open>\<^verbatim>\<open>String.prototype.endsWith\<close>.\<close>

definition endsWith :: "string \<Rightarrow> string \<Rightarrow> bool" where
  "endsWith s p = (length p \<le> length s \<and> drop (length s - length p) s = p)"

text \<open>
  \<^verbatim>\<open>text.replace(/^```json\s*/, '')\<close>: the pattern is anchored at the start, so it
  matches when the text starts with the marker, and then takes all whitespace after it.
\<close>

definition stripLeadingFence :: "string \<Rightarrow> string" where
  "stripLeadingFence text =
     (if startsWith text ''```json'' then dropWhile isSpace (drop 7 text) else text)"

text \<open>
  \<^verbatim>\<open>.replace(/\s*```$/, '')\<close>: the pattern is anchored at the end, so it matches when the
  text ends with three backquotes; the leftmost match takes all whitespace before them.
\<close>

definition stripTrailingFence :: "string \<Rightarrow> string" where
  "stripTrailingFence text =
     (if endsWith text ''```''
      then rev (dropWhile isSpace (rev (take (length text - 3) text)))
      else text)"

definition parseFailure :: js_error where
  "parseFailure = Error (Some ''Failed to parse AI response. Ensure content is valid JSON.'')"

text \<open>
  The argument is \<open>None\<close> when the caller passes \<^verbatim>\<open>undefined\<close> (\<^verbatim>\<open>response.text!\<close>):
  \<^verbatim>\<open>text.replace\<close> then throws inside the \<^verbatim>\<open>try\<close>, and the same \<^verbatim>\<open>catch\<close> runs.
\<close>

definition cleanAndParseJson :: "string option \<Rightarrow> (js_error, json) io" where
  "cleanAndParseJson text =
     (case text of
        None \<Rightarrow> ([ConsoleError None], Inl parseFailure)
      | Some t \<Rightarrow>
          (let cleanText = stripTrailingFence (stripLeadingFence t)
           in case JSON_parse cleanText of
                Some v \<Rightarrow> ([], Inr v)
              | None \<Rightarrow> ([ConsoleError (Some t)], Inl parseFailure)))"

section \<open>getWordDefinition\<close>

text \<open>The two credentials of \<^verbatim>\<open>process.env\<close>; \<open>None\<close> is an unset variable.\<close>

record env =
  API_KEY :: "string option"
  DEEPSEEK_API_KEY :: "string option"

text \<open>Truthiness of a credential: set, and not the empty string.\<close>

definition isSet :: "string option \<Rightarrow> bool" where
  "isSet v = (case v of None \<Rightarrow> False | Some k \<Rightarrow> k \<noteq> [])"

text \<open>\<open>getAi\<close> throws without a key; the client it returns is opaque.\<close>

definition getAi :: "env \<Rightarrow> js_error + unit" where
  "getAi e =
     (if \<not> isSet (API_KEY e)
      then Inl (Error (Some ''API Key is missing. Please check your deployment environment variables.''))
      else Inr ())"

text \<open>
  What the \<^verbatim>\<open>fetch\<close> of \<open>callDeepSeek\<close> meets: a rejected promise, or a response with
  its \<^verbatim>\<open>ok\<close> flag, its \<^verbatim>\<open>statusText\<close>, and what reading
  \<^verbatim>\<open>data.choices[0].message.content\<close> of its body gives: an error thrown on the way, or
  the content, \<open>None\<close> when it is not a string.
\<close>

datatype fetch_result =
    Rejected js_error
  | Response bool string "js_error + string option"

definition callDeepSeek :: "env \<Rightarrow> fetch_result \<Rightarrow> string \<Rightarrow> string \<Rightarrow> (js_error, string option) io" where
  "callDeepSeek e response systemPrompt userPrompt =
     (if \<not> isSet (DEEPSEEK_API_KEY e) then ([], Inl (Error (Some ''DeepSeek API Key is missing'')))
      else
        (case response of
           Rejected err \<Rightarrow> ([DeepSeekFetch systemPrompt userPrompt], Inl err)
         | Response ok statusText content \<Rightarrow>
             if \<not> ok
             then ([DeepSeekFetch systemPrompt userPrompt],
                   Inl (Error (Some (''DeepSeek API Error: '' @ statusText))))
             else ([DeepSeekFetch systemPrompt userPrompt], content)))"

definition definePrompt :: "string \<Rightarrow> string \<Rightarrow> string" where
  "definePrompt word contextSentence =
     ''Define \"'' @ word @ ''\" in context: \"'' @ contextSentence @
     ''\". Return JSON with: word, definition (English), example, phonetic.''"

text \<open>
  The closure given to \<open>withRetry\<close>. \<open>generateContent i\<close> is what the \<open>i\<close>-th request to
  the primary provider meets: an error, or a response with its \<^verbatim>\<open>text\<close> (\<open>None\<close> for
  \<^verbatim>\<open>undefined\<close>).
\<close>

definition primaryAttempt :: "env \<Rightarrow> (nat \<Rightarrow> js_error + string option) \<Rightarrow> nat \<Rightarrow> (js_error, json) io" where
  "primaryAttempt e generateContent i =
     (case getAi e of
        Inl err \<Rightarrow> ([], Inl err)
      | Inr ai \<Rightarrow>
          (case generateContent i of
             Inl err \<Rightarrow> ([], Inl err)
           | Inr text \<Rightarrow> cleanAndParseJson text))"

text \<open>The inner \<^verbatim>\<open>try\<close> block: the secondary provider, then the same normalizer.\<close>

definition fallbackAttempt :: "env \<Rightarrow> fetch_result \<Rightarrow> string \<Rightarrow> (js_error, json) io" where
  "fallbackAttempt e response prompt =
     (case callDeepSeek e response ''You are an English dictionary API. Output purely JSON.'' prompt of
        (tr, Inl err) \<Rightarrow> (tr, Inl err)
      | (tr, Inr responseText) \<Rightarrow>
          (case cleanAndParseJson responseText of (tr', r) \<Rightarrow> (tr @ tr', r)))"

definition getWordDefinition ::
  "env \<Rightarrow> (nat \<Rightarrow> js_error + string option) \<Rightarrow> fetch_result \<Rightarrow> string \<Rightarrow> string
     \<Rightarrow> (js_error option, json) io"
where
  "getWordDefinition e generateContent response word contextSentence =
     (let prompt = definePrompt word contextSentence
      in case withRetry_default (primaryAttempt e generateContent) of
           (tr, Inr v) \<Rightarrow> (tr, Inr v)
         | (tr, Inl geminiError) \<Rightarrow>
             if isSet (DEEPSEEK_API_KEY e) then
               (case fallbackAttempt e response prompt of
                  (tr', Inl deepSeekError) \<Rightarrow> (tr @ tr', Inl (Some deepSeekError))
                | (tr', Inr v) \<Rightarrow> (tr @ tr', Inr v))
             else (tr, Inl geminiError))"

text \<open>The requests to the secondary provider in a trace.\<close>

fun isFetch :: "event \<Rightarrow> bool" where
  "isFetch (DeepSeekFetch systemPrompt userPrompt) = True"
| "isFetch _ = False"

definition fetches :: "event list \<Rightarrow> nat" where
  "fetches trace = length (filter isFetch trace)"

text \<open>The three terminal outcomes of a call, read from what it did and returned.\<close>

definition isSuccess :: "(js_error option, json) io \<Rightarrow> bool" where
  "isSuccess run = (\<not> isl (snd run))"

definition isPrimaryFailedNoFallback :: "(js_error option, json) io \<Rightarrow> bool" where
  "isPrimaryFailedNoFallback run = (isl (snd run) \<and> fetches (fst run) = 0)"

definition isFallbackFailed :: "(js_error option, json) io \<Rightarrow> bool" where
  "isFallbackFailed run = (isl (snd run) \<and> fetches (fst run) = 1)"


section \<open>Facts about strings\<close>

lemma startsWith_iff: "startsWith s p \<longleftrightarrow> (\<exists>q. s = p @ q)"
  unfolding startsWith_def
  by (metis append_eq_conv_conj append_take_drop_id)

lemma includes_js_iff: "includes_js s sub \<longleftrightarrow> (\<exists>p q. s = p @ sub @ q)"
proof (induction s)
  case Nil
  then show ?case by auto
next
  case (Cons c cs)
  show ?case
  proof
    assume "includes_js (c # cs) sub"
    then consider "startsWith (c # cs) sub" | "includes_js cs sub" by auto
    then show "\<exists>p q. c # cs = p @ sub @ q"
    proof cases
      case 1
      then obtain q where "c # cs = sub @ q" by (auto simp: startsWith_iff)
      then have "c # cs = [] @ sub @ q" by simp
      then show ?thesis by blast
    next
      case 2
      then obtain p q where "cs = p @ sub @ q" using Cons.IH by auto
      then have "c # cs = (c # p) @ sub @ q" by simp
      then show ?thesis by blast
    qed
  next
    assume "\<exists>p q. c # cs = p @ sub @ q"
    then obtain p q where pq: "c # cs = p @ sub @ q" by auto
    show "includes_js (c # cs) sub"
    proof (cases p)
      case Nil
      then have "startsWith (c # cs) sub" using pq by (auto simp: startsWith_iff)
      then show ?thesis by simp
    next
      case (Cons a p')
      then have "cs = p' @ sub @ q" using pq by simp
      then have "includes_js cs sub" using Cons.IH by blast
      then show ?thesis by simp
    qed
  qed
qed

lemma includes_lower_iff:
  "includes_js (toLowerCase m) w \<longleftrightarrow> (\<exists>p u q. m = p @ u @ q \<and> toLowerCase u = w)"
proof
  assume "includes_js (toLowerCase m) w"
  then obtain a b where "map lowerChar m = a @ w @ b"
    by (auto simp: includes_js_iff toLowerCase_def)
  then obtain p r where m: "m = p @ r" and "map lowerChar r = w @ b"
    by (metis map_eq_append_conv)
  then obtain u q where "r = u @ q" and "map lowerChar u = w"
    by (metis map_eq_append_conv)
  with m show "\<exists>p u q. m = p @ u @ q \<and> toLowerCase u = w"
    by (auto simp: toLowerCase_def)
next
  assume "\<exists>p u q. m = p @ u @ q \<and> toLowerCase u = w"
  then obtain p u q where "m = p @ u @ q" and "toLowerCase u = w" by blast
  then have "toLowerCase m = toLowerCase p @ w @ toLowerCase q"
    by (auto simp: toLowerCase_def)
  then show "includes_js (toLowerCase m) w"
    unfolding includes_js_iff by blast
qed

lemmas string_eval = startsWith_def toLowerCase_def lowerChar_def upperChars_def lowerChars_def

section \<open>Facts about withRetry\<close>

lemma withRetry_loop_stops:
  assumes "i \<le> k" "k < retries"
    and "\<forall>j. i \<le> j \<and> j < k \<longrightarrow> (\<exists>evs e. fn j = (evs, Inl e) \<and> isInternalError e)"
    and "stopsAt fn retries k"
  shows "withRetry_loop fn retries i d l = (retry_trace fn d i k, map_sum Some id (snd (fn k)))"
  using assms
proof (induction "k - i" arbitrary: i d l)
  case 0
  then have ik: "i = k" by simp
  obtain evs r where fk: "fn k = (evs, r)" by (cases "fn k")
  show ?case
  proof (cases r)
    case (Inl e)
    with fk 0 ik show ?thesis
      by (auto simp: withRetry_loop.simps[of fn retries k] retry_trace_def stopsAt_def)
  next
    case (Inr v)
    with fk 0 ik show ?thesis
      by (auto simp: withRetry_loop.simps[of fn retries k] retry_trace_def)
  qed
next
  case (Suc n)
  then have lt: "i < k" by simp
  then obtain evs e where fi: "fn i = (evs, Inl e)" and re: "isInternalError e"
    using Suc.prems(3) by blast
  have i1: "i < retries - 1" using lt Suc.prems(2) by simp
  have IH: "withRetry_loop fn retries (i + 1) (d * backoffMultiplier) (Some e)
              = (retry_trace fn (d * backoffMultiplier) (i + 1) k, map_sum Some id (snd (fn k)))"
    using Suc.hyps(1)[of "i + 1"] Suc.hyps(2) Suc.prems lt by auto
  have upt: "[i..<k] = i # [Suc i..<k]" using lt by (simp add: upt_conv_Cons)
  have pw: "\<And>j. j \<in> set [Suc i..<k] \<Longrightarrow>
              d * backoffMultiplier * backoffMultiplier ^ (j - Suc i) = d * backoffMultiplier ^ (j - i)"
  proof -
    fix j assume "j \<in> set [Suc i..<k]"
    then have "j - i = Suc (j - Suc i)" by auto
    then show "d * backoffMultiplier * backoffMultiplier ^ (j - Suc i) = d * backoffMultiplier ^ (j - i)"
      by simp
  qed
  have tr: "retry_trace fn d i k
             = Attempt i evs # Wait d # retry_trace fn (d * backoffMultiplier) (i + 1) k"
  proof -
    have meq: "map (\<lambda>j. [Attempt j (fst (fn j)), Wait (d * backoffMultiplier ^ (j - i))]) [Suc i..<k]
             = map (\<lambda>j. [Attempt j (fst (fn j)),
                         Wait (d * backoffMultiplier * backoffMultiplier ^ (j - Suc i))]) [Suc i..<k]"
      by (rule map_cong[OF refl]) (simp only: pw)
    show ?thesis
      unfolding retry_trace_def upt using fi by (simp add: meq)
  qed
  show ?case
    using fi re i1 lt Suc.prems(2) IH tr
    by (simp add: withRetry_loop.simps[of fn retries i])
qed

lemma attempts_retry_trace: "i \<le> k \<Longrightarrow> attempts (retry_trace fn d i k) = Suc (k - i)"
  unfolding retry_trace_def attempts_def
  by (induction k) (auto simp: le_Suc_eq Suc_diff_le)

lemma waits_append: "waits (xs @ ys) = waits xs @ waits ys"
  by (induction xs rule: waits.induct) auto

lemma waits_retry_trace:
  "waits (retry_trace fn d 0 k) = map (\<lambda>j. d * backoffMultiplier ^ j) [0..<k]"
  unfolding retry_trace_def
  by (induction k) (auto simp: waits_append)

lemma withRetry_stop_index:
  assumes "1 \<le> retries" and "\<forall>j evs e. fn j = (evs, Inl e) \<longrightarrow> isInternalError e"
  obtains k where "k < retries"
    and "withRetry fn retries d = (retry_trace fn d 0 k, map_sum Some id (snd (fn k)))"
    and "\<forall>j<k. isl (snd (fn j))"
    and "\<not> isl (snd (fn k)) \<or> k = retries - 1"
proof -
  have fails: "\<exists>evs e. fn j = (evs, Inl e) \<and> isInternalError e" if "isl (snd (fn j))" for j
  proof -
    obtain evs r where f: "fn j = (evs, r)" by (cases "fn j")
    with that obtain e where "r = Inl e" by (cases r) auto
    with f assms(2) show ?thesis by blast
  qed
  have run: "withRetry fn retries d = (retry_trace fn d 0 k, map_sum Some id (snd (fn k)))"
    if "k < retries" "\<forall>j<k. isl (snd (fn j))" "\<not> isl (snd (fn k)) \<or> k = retries - 1" for k
  proof -
    have stop: "stopsAt fn retries k"
      using that(3) by (cases "snd (fn k)") (auto simp: stopsAt_def)
    show ?thesis
      unfolding withRetry_def
      by (rule withRetry_loop_stops) (use that fails stop in auto)
  qed
  show thesis
  proof (cases "\<exists>j<retries. \<not> isl (snd (fn j))")
    case True
    define k where "k = (LEAST j. \<not> isl (snd (fn j)))"
    from True obtain j0 where j0: "j0 < retries" "\<not> isl (snd (fn j0))" by blast
    have at: "\<not> isl (snd (fn k))"
      unfolding k_def by (rule LeastI[of "\<lambda>j. \<not> isl (snd (fn j))" j0]) (rule j0(2))
    have "k \<le> j0" unfolding k_def by (rule Least_le) (rule j0(2))
    then have lt: "k < retries" using j0(1) by simp
    have before: "\<forall>j<k. isl (snd (fn j))"
      unfolding k_def using not_less_Least by blast
    from run[OF lt before] at lt before that show thesis by blast
  next
    case False
    then have before: "\<forall>j<retries - 1. isl (snd (fn j))" by auto
    have lt: "retries - 1 < retries" using assms(1) by simp
    from run[OF lt before] lt before that show thesis by blast
  qed
qed

lemma withRetry_loop_propagates_last:
  "withRetry_loop fn retries i d l = (tr, Inl (Some e)) \<Longrightarrow> i < retries \<Longrightarrow> isInternalError e
   \<Longrightarrow> attempts tr = retries - i"
proof (induction fn retries i d l arbitrary: tr rule: withRetry_loop.induct)
  case (1 fn retries i delayMs lastError)
  show ?case
  proof (cases "fn i")
    case (Pair evs r)
    show ?thesis
    proof (cases r)
      case (Inr v)
      with Pair 1 show ?thesis by (simp add: withRetry_loop.simps)
    next
      case (Inl err)
      show ?thesis
      proof (cases "isInternalError err \<and> i < retries - 1")
        case True
        obtain tr' r' where rec: "withRetry_loop fn retries (i + 1) (delayMs * backoffMultiplier) (Some err) = (tr', r')"
          by (cases "withRetry_loop fn retries (i + 1) (delayMs * backoffMultiplier) (Some err)")
        with 1(2) 1(3) Pair Inl True have tr: "tr = Attempt i evs # Wait delayMs # tr'" and r': "r' = Inl (Some e)"
          by (auto simp: withRetry_loop.simps[of fn retries i])
        have "attempts tr' = retries - (i + 1)"
          using 1(1)[OF 1(3) Pair[symmetric] Inl True] rec r' True 1(4) by auto
        then show ?thesis using tr True by (auto simp: attempts_def)
      next
        case False
        with 1(2) 1(3) Pair Inl have "tr = [Attempt i evs]" "err = e"
          by (auto simp: withRetry_loop.simps[of fn retries i])
        with False 1(4) 1(3) show ?thesis by (auto simp: attempts_def)
      qed
    qed
  qed
qed

lemma ex_Some_iff: "x = Some m \<Longrightarrow> (\<exists>m'. x = Some m' \<and> Q m') \<longleftrightarrow> Q m"
  by auto

lemma isInternalError_iff:
  "isInternalError e \<longleftrightarrow>
      (\<exists>m. message e = Some m \<and>
         ((\<exists>p u q. m = p @ u @ q \<and> toLowerCase u = ''internal error'') \<or>
          (\<exists>p q. m = p @ ''500'' @ q) \<or> (\<exists>p q. m = p @ ''503'' @ q)))"
proof (cases "message e")
  case None
  then show ?thesis by (simp add: isInternalError_def)
next
  case (Some m)
  have "isInternalError e \<longleftrightarrow>
      includes_js (toLowerCase m) ''internal error'' \<or> includes_js m ''500'' \<or> includes_js m ''503''"
    using Some by (simp add: isInternalError_def)
  also have "\<dots> \<longleftrightarrow> ((\<exists>p u q. m = p @ u @ q \<and> toLowerCase u = ''internal error'') \<or>
          (\<exists>p q. m = p @ ''500'' @ q) \<or> (\<exists>p q. m = p @ ''503'' @ q))"
    by (simp only: includes_lower_iff[of m "''internal error''"] includes_js_iff[of m "''500''"]
          includes_js_iff[of m "''503''"])
  also have "\<dots> \<longleftrightarrow> (\<exists>m. message e = Some m \<and>
         ((\<exists>p u q. m = p @ u @ q \<and> toLowerCase u = ''internal error'') \<or>
          (\<exists>p q. m = p @ ''500'' @ q) \<or> (\<exists>p q. m = p @ ''503'' @ q)))"
    by (rule ex_Some_iff[OF Some, symmetric])
  finally show ?thesis .
qed

lemma attempts_Cons_Attempt: "attempts (Attempt i evs # tr) = Suc (attempts tr)"
  by (simp add: attempts_def)

lemma attempts_Cons_Wait: "attempts (Wait d # tr) = attempts tr"
  by (simp add: attempts_def)

lemma withRetry_loop_attempts_ge:
  assumes "i \<le> k" "k < retries"
    and "\<forall>j. i \<le> j \<and> j < k \<longrightarrow> (\<exists>evs e. fn j = (evs, Inl e) \<and> isInternalError e)"
  shows "k - i + 1 \<le> attempts (fst (withRetry_loop fn retries i d l))"
  using assms
proof (induction "k - i" arbitrary: i d l)
  case 0
  then have ir: "i < retries" by simp
  obtain evs r where f: "fn i = (evs, r)" by (cases "fn i")
  have "1 \<le> attempts (fst (withRetry_loop fn retries i d l))"
  proof (cases r)
    case (Inr v)
    then show ?thesis
      using ir f by (simp add: withRetry_loop.simps[of fn retries i] attempts_Cons_Attempt)
  next
    case (Inl err)
    obtain rest r' where rec:
      "withRetry_loop fn retries (i + 1) (d * backoffMultiplier) (Some err) = (rest, r')"
      by (cases "withRetry_loop fn retries (i + 1) (d * backoffMultiplier) (Some err)")
    show ?thesis
      using ir f Inl rec
      by (simp add: withRetry_loop.simps[of fn retries i] attempts_Cons_Attempt)
  qed
  then show ?case using 0 by simp
next
  case (Suc n)
  then have lt: "i < k" by simp
  then obtain evs e where fi: "fn i = (evs, Inl e)" and re: "isInternalError e"
    using Suc.prems(3) by blast
  have i1: "i < retries - 1" using lt Suc.prems(2) by simp
  obtain rest r' where rec:
    "withRetry_loop fn retries (i + 1) (d * backoffMultiplier) (Some e) = (rest, r')"
    by (cases "withRetry_loop fn retries (i + 1) (d * backoffMultiplier) (Some e)")
  have "k - (i + 1) + 1 \<le> attempts (fst (withRetry_loop fn retries (i + 1) (d * backoffMultiplier) (Some e)))"
    using Suc.hyps(1)[of "i + 1"] Suc.hyps(2) Suc.prems lt by auto
  then have "k - (i + 1) + 1 \<le> attempts rest" using rec by simp
  moreover have "fst (withRetry_loop fn retries i d l) = Attempt i evs # Wait d # rest"
    using fi re i1 lt Suc.prems(2) rec by (simp add: withRetry_loop.simps[of fn retries i])
  ultimately show ?case
    using lt by (simp add: attempts_Cons_Attempt attempts_Cons_Wait)
qed

text \<open>
  Claim C2. A failure is retried exactly when its message contains \<open>internal error\<close> in
  any letter case (some part of the message lower-cases to it), or contains \<open>500\<close> or
  \<open>503\<close> anywhere; a failure without a message is never retried. With at least one
  attempt allowed, a failure of the first attempt that is not retryable is thrown at once:
  the trace holds that attempt alone. More generally, after retryable failures of the
  attempts before it, a failure of attempt \<open>k + 1\<close> is thrown, with the trace
  \<open>retry_trace\<close> of \<open>k + 1\<close> attempts and the waits between them, when it is not
  retryable or when the attempt is the last one allowed; and a success there is returned.
  A retryable failure of an attempt that is not the last is always followed by another
  attempt. Whenever the error thrown by \<open>withRetry\<close> is a retryable one, all
  \<open>retries\<close> attempts have been made.
\<close>

theorem withRetry_classifies_and_propagates:
  "(isInternalError e \<longleftrightarrow>
      (\<exists>m. message e = Some m \<and>
         ((\<exists>p u q. m = p @ u @ q \<and> toLowerCase u = ''internal error'') \<or>
          (\<exists>p q. m = p @ ''500'' @ q) \<or> (\<exists>p q. m = p @ ''503'' @ q))))
   \<and> (1 \<le> retries \<and> fn 0 = (evs, Inl e1) \<and> \<not> isInternalError e1 \<longrightarrow>
        withRetry fn retries d = ([Attempt 0 evs], Inl (Some e1)))
   \<and> (withRetry fn retries d = (tr, Inl (Some e2)) \<and> isInternalError e2 \<longrightarrow>
        attempts tr = retries)
   \<and> (k < retries \<and> (\<forall>j<k. \<exists>evs' e'. fn j = (evs', Inl e') \<and> isInternalError e') \<and>
        fn k = (evs3, Inl e3) \<and> (\<not> isInternalError e3 \<or> k = retries - 1) \<longrightarrow>
        withRetry fn retries d = (retry_trace fn d 0 k, Inl (Some e3))
        \<and> attempts (fst (withRetry fn retries d)) = k + 1)
   \<and> (k < retries \<and> (\<forall>j<k. \<exists>evs' e'. fn j = (evs', Inl e') \<and> isInternalError e') \<and>
        fn k = (evs4, Inr v) \<longrightarrow>
        withRetry fn retries d = (retry_trace fn d 0 k, Inr v))
   \<and> (i + 1 < retries \<and> (\<forall>j\<le>i. \<exists>evs' e'. fn j = (evs', Inl e') \<and> isInternalError e') \<longrightarrow>
        i + 2 \<le> attempts (fst (withRetry fn retries d)))"
proof (intro conjI impI)
  show "isInternalError e \<longleftrightarrow>
      (\<exists>m. message e = Some m \<and>
         ((\<exists>p u q. m = p @ u @ q \<and> toLowerCase u = ''internal error'') \<or>
          (\<exists>p q. m = p @ ''500'' @ q) \<or> (\<exists>p q. m = p @ ''503'' @ q)))"
    by (rule isInternalError_iff)
next
  assume "1 \<le> retries \<and> fn 0 = (evs, Inl e1) \<and> \<not> isInternalError e1"
  then show "withRetry fn retries d = ([Attempt 0 evs], Inl (Some e1))"
    by (simp add: withRetry_def withRetry_loop.simps[of fn retries 0])
next
  assume a: "withRetry fn retries d = (tr, Inl (Some e2)) \<and> isInternalError e2"
  show "attempts tr = retries"
  proof (cases "0 < retries")
    case True
    with a withRetry_loop_propagates_last[of fn retries 0 d None tr e2] show ?thesis
      by (simp add: withRetry_def)
  next
    case False
    with a show ?thesis by (simp add: withRetry_def withRetry_loop.simps[of fn retries 0])
  qed
next
  assume a: "k < retries \<and> (\<forall>j<k. \<exists>evs' e'. fn j = (evs', Inl e') \<and> isInternalError e') \<and>
        fn k = (evs3, Inl e3) \<and> (\<not> isInternalError e3 \<or> k = retries - 1)"
  then have stop: "stopsAt fn retries k" by (auto simp: stopsAt_def)
  have "withRetry_loop fn retries 0 d None = (retry_trace fn d 0 k, map_sum Some id (snd (fn k)))"
    by (rule withRetry_loop_stops) (use a stop in auto)
  then show run: "withRetry fn retries d = (retry_trace fn d 0 k, Inl (Some e3))"
    using a by (simp add: withRetry_def)
  show "attempts (fst (withRetry fn retries d)) = k + 1"
    by (simp add: run attempts_retry_trace)
next
  assume a: "k < retries \<and> (\<forall>j<k. \<exists>evs' e'. fn j = (evs', Inl e') \<and> isInternalError e') \<and>
        fn k = (evs4, Inr v)"
  then have stop: "stopsAt fn retries k" by (auto simp: stopsAt_def)
  have "withRetry_loop fn retries 0 d None = (retry_trace fn d 0 k, map_sum Some id (snd (fn k)))"
    by (rule withRetry_loop_stops) (use a stop in auto)
  then show "withRetry fn retries d = (retry_trace fn d 0 k, Inr v)"
    using a by (simp add: withRetry_def)
next
  assume a: "i + 1 < retries \<and> (\<forall>j\<le>i. \<exists>evs' e'. fn j = (evs', Inl e') \<and> isInternalError e')"
  have "i + 1 - 0 + 1 \<le> attempts (fst (withRetry_loop fn retries 0 d None))"
    by (rule withRetry_loop_attempts_ge) (use a in auto)
  then show "i + 2 \<le> attempts (fst (withRetry fn retries d))"
    by (simp add: withRetry_def)
qed

theorem withRetry_classifies_and_propagates_witness:
  "withRetry (\<lambda>i. ([], Inl (Error (Some ''401 Unauthorized'')))) 3 1000
     = ([Attempt 0 []], Inl (Some (Error (Some ''401 Unauthorized'')))  :: js_error option + unit)
   \<and> isInternalError (Error (Some ''An Internal Error occurred''))
   \<and> withRetry (\<lambda>i. ([], Inl (Error (Some ''503'')))) 3 1000
     = ([Attempt 0 [], Wait 1000, Attempt 1 [], Wait 2000, Attempt 2 []],
        Inl (Some (Error (Some ''503''))) :: js_error option + unit)
   \<and> withRetry (\<lambda>i. ([], if i = 0 then Inl (Error (Some ''503'')) else Inl (Error (Some ''401 Unauthorized'')))) 3 1000
     = ([Attempt 0 [], Wait 1000, Attempt 1 []],
        Inl (Some (Error (Some ''401 Unauthorized''))) :: js_error option + unit)
   \<and> withRetry (\<lambda>i. ([], if i = 0 then Inl (Error (Some ''503'')) else Inr ())) 3 1000
     = ([Attempt 0 [], Wait 1000, Attempt 1 []], Inr ())
   \<and> attempts (fst (withRetry (\<lambda>i. ([], Inl (Error (Some ''503'')) :: js_error + unit)) 3 1000)) = 3"
proof -
  let ?e401 = "Error (Some ''401 Unauthorized'')"
  let ?e503 = "Error (Some ''503'')"
  let ?f401 = "\<lambda>i::nat. ([] :: event list, Inl ?e401 :: js_error + unit)"
  let ?f503 = "\<lambda>i::nat. ([] :: event list, Inl ?e503 :: js_error + unit)"
  let ?fmix = "\<lambda>i::nat. ([] :: event list, if i = 0 then Inl ?e503 else Inl ?e401 :: js_error + unit)"
  let ?fok = "\<lambda>i::nat. ([] :: event list, if i = 0 then Inl ?e503 else Inr () :: js_error + unit)"
  have n: "\<not> isInternalError ?e401"
    by (simp add: isInternalError_def string_eval)
  have r: "isInternalError ?e503"
    by (simp add: isInternalError_def string_eval)
  have u: "''An Internal Error occurred'' = ''An '' @ ''Internal Error'' @ '' occurred''"
    and l: "toLowerCase ''Internal Error'' = ''internal error''"
    by (simp_all add: string_eval)
  note T = withRetry_classifies_and_propagates
  have a: "isInternalError (Error (Some ''An Internal Error occurred''))"
  proof (rule T[THEN conjunct1, THEN iffD2], intro exI conjI disjI1)
    show "message (Error (Some ''An Internal Error occurred'')) = Some ''An Internal Error occurred''"
      by (simp only: js_error.sel)
    show "''An Internal Error occurred'' = ''An '' @ ''Internal Error'' @ '' occurred''"
      by (rule u)
    show "toLowerCase ''Internal Error'' = ''internal error''"
      by (rule l)
  qed
  have b: "withRetry ?f401 3 1000 = ([Attempt 0 []], Inl (Some ?e401))"
    using T[of _ 3 ?f401 "[]" ?e401 1000, THEN conjunct2, THEN conjunct1] n by simp
  have t2: "retry_trace ?f503 1000 0 2 = [Attempt 0 [], Wait 1000, Attempt 1 [], Wait 2000, Attempt 2 []]"
    by (simp add: retry_trace_def backoffMultiplier_def upt_conv_Cons)
  have h503: "(2::nat) < 3 \<and> (\<forall>j<2. \<exists>evs' e'. ?f503 j = (evs', Inl e') \<and> isInternalError e') \<and>
        ?f503 2 = ([], Inl ?e503) \<and> (\<not> isInternalError ?e503 \<or> (2::nat) = 3 - 1)"
    using r by simp
  have c: "withRetry ?f503 3 1000 = ([Attempt 0 [], Wait 1000, Attempt 1 [], Wait 2000, Attempt 2 []], Inl (Some ?e503))"
    using T[of _ 3 ?f503 _ _ 1000 _ _ 2 "[]" ?e503,
            THEN conjunct2, THEN conjunct2, THEN conjunct2, THEN conjunct1, rule_format, OF h503, THEN conjunct1]
    by (simp only: t2)
  have t1m: "retry_trace ?fmix 1000 0 1 = [Attempt 0 [], Wait 1000, Attempt 1 []]"
    by (simp add: retry_trace_def backoffMultiplier_def upt_conv_Cons)
  have hmix: "(1::nat) < 3 \<and> (\<forall>j<1. \<exists>evs' e'. ?fmix j = (evs', Inl e') \<and> isInternalError e') \<and>
        ?fmix 1 = ([], Inl ?e401) \<and> (\<not> isInternalError ?e401 \<or> (1::nat) = 3 - 1)"
    using r n by simp
  have d: "withRetry ?fmix 3 1000 = ([Attempt 0 [], Wait 1000, Attempt 1 []], Inl (Some ?e401))"
    using T[of _ 3 ?fmix _ _ 1000 _ _ 1 "[]" ?e401,
            THEN conjunct2, THEN conjunct2, THEN conjunct2, THEN conjunct1, rule_format, OF hmix, THEN conjunct1]
    by (simp only: t1m)
  have t1o: "retry_trace ?fok 1000 0 1 = [Attempt 0 [], Wait 1000, Attempt 1 []]"
    by (simp add: retry_trace_def backoffMultiplier_def upt_conv_Cons)
  have hok: "(1::nat) < 3 \<and> (\<forall>j<1. \<exists>evs' e'. ?fok j = (evs', Inl e') \<and> isInternalError e') \<and>
        ?fok 1 = ([], Inr ())"
    using r by simp
  have e: "withRetry ?fok 3 1000 = ([Attempt 0 [], Wait 1000, Attempt 1 []], Inr ())"
    using T[of _ 3 ?fok _ _ 1000 _ _ 1 _ _ "[]" "()",
            THEN conjunct2, THEN conjunct2, THEN conjunct2, THEN conjunct2, THEN conjunct1, rule_format, OF hok]
    by (simp only: t1o)
  have f: "attempts (fst (withRetry ?f503 3 1000)) = 3"
    using T[of _ 3 ?f503 _ _ 1000 "fst (withRetry ?f503 3 1000)" ?e503, THEN conjunct2, THEN conjunct2, THEN conjunct1]
      c r by simp
  from a b c d e f show ?thesis by (intro conjI)
qed

text \<open>
  Claim C3. With at least one attempt allowed and an operation whose failures are all
  retryable: when the first success is at invocation \<open>k\<close> (counted from 0, so it is
  attempt \<open>k + 1\<close>), exactly \<open>min retries (k + 1)\<close> attempts are made; when none of the
  first \<open>retries\<close> invocations succeeds, exactly \<open>retries\<close> are made. The trace is
  \<open>retry_trace\<close>: after attempt \<open>j + 1\<close> and before the next one comes a wait of
  \<open>d * backoffMultiplier ^ j\<close>, and there is no other wait. The multiplier is the
  constant 2 of the code; the default policy is 3 attempts and 1000 ms.
\<close>

theorem withRetry_attempts_and_backoff:
  assumes "1 \<le> retries"
    and "\<forall>j evs e. fn j = (evs, Inl e) \<longrightarrow> isInternalError e"
  shows "(\<forall>k. (\<forall>j<k. isl (snd (fn j))) \<and> \<not> isl (snd (fn k)) \<longrightarrow>
            attempts (fst (withRetry fn retries d)) = min retries (k + 1))
       \<and> ((\<forall>j<retries. isl (snd (fn j))) \<longrightarrow> attempts (fst (withRetry fn retries d)) = retries)
       \<and> fst (withRetry fn retries d)
           = retry_trace fn d 0 (attempts (fst (withRetry fn retries d)) - 1)
       \<and> waits (fst (withRetry fn retries d))
           = map (\<lambda>i. d * backoffMultiplier ^ i) [0..<attempts (fst (withRetry fn retries d)) - 1]
       \<and> backoffMultiplier = 2
       \<and> withRetry_default fn = withRetry fn 3 1000"
proof -
  obtain s where s: "s < retries"
    and run: "withRetry fn retries d = (retry_trace fn d 0 s, map_sum Some id (snd (fn s)))"
    and before: "\<forall>j<s. isl (snd (fn j))"
    and at: "\<not> isl (snd (fn s)) \<or> s = retries - 1"
    using withRetry_stop_index[OF assms] by blast
  have n: "attempts (fst (withRetry fn retries d)) = s + 1"
    by (simp add: run attempts_retry_trace)
  have first: "attempts (fst (withRetry fn retries d)) = min retries (k + 1)"
    if k: "\<forall>j<k. isl (snd (fn j))" "\<not> isl (snd (fn k))" for k
  proof (cases "\<not> isl (snd (fn s))")
    case True
    have "\<not> s < k" using k(1) True by blast
    moreover have "\<not> k < s" using before k(2) by blast
    ultimately have "s = k" by simp
    with n s show ?thesis by simp
  next
    case False
    then have "s = retries - 1" using at by blast
    moreover have "\<not> k < s" using before k(2) by blast
    ultimately show ?thesis using n s by simp
  qed
  have never: "attempts (fst (withRetry fn retries d)) = retries"
    if "\<forall>j<retries. isl (snd (fn j))"
  proof -
    have "isl (snd (fn s))" using that s by blast
    then have "s = retries - 1" using at by blast
    with n s show ?thesis by simp
  qed
  have tr: "fst (withRetry fn retries d)
              = retry_trace fn d 0 (attempts (fst (withRetry fn retries d)) - 1)"
    unfolding n by (simp add: run)
  have w: "waits (fst (withRetry fn retries d))
             = map (\<lambda>i. d * backoffMultiplier ^ i) [0..<attempts (fst (withRetry fn retries d)) - 1]"
    unfolding n by (simp add: run waits_retry_trace)
  show ?thesis
    using first never tr w by (simp add: backoffMultiplier_def withRetry_default_def)
qed

theorem withRetry_attempts_and_backoff_witness:
  "fst (withRetry_default (\<lambda>i. ([], if i < 2 then Inl (Error (Some ''503 Service Unavailable'')) else Inr ())))
     = [Attempt 0 [], Wait 1000, Attempt 1 [], Wait 2000, Attempt 2 []]
   \<and> attempts (fst (withRetry (\<lambda>i. ([], if i < 2 then Inl (Error (Some ''503 Service Unavailable'')) else Inr ())) 3 1000)) = 3
   \<and> attempts (fst (withRetry (\<lambda>i. ([], Inl (Error (Some ''503 Service Unavailable'')) :: js_error + unit)) 3 1000)) = 3"
proof -
  let ?e = "Error (Some ''503 Service Unavailable'')"
  let ?f = "\<lambda>i::nat. ([] :: event list, if i < 2 then Inl ?e else Inr ())"
  let ?g = "\<lambda>i::nat. ([] :: event list, Inl ?e :: js_error + unit)"
  have r: "isInternalError ?e"
    by (simp add: isInternalError_def string_eval)
  have hf: "\<forall>j evs e. ?f j = (evs, Inl e) \<longrightarrow> isInternalError e"
    using r by (auto split: if_splits)
  have hg: "\<forall>j evs e. ?g j = (evs, Inl e) \<longrightarrow> isInternalError e"
    using r by auto
  have one: "(1::nat) \<le> 3" by simp
  note F = withRetry_attempts_and_backoff[OF one hf, of 1000]
  note G = withRetry_attempts_and_backoff[OF one hg, of 1000]
  have k2: "(\<forall>j<2. isl (snd (?f j))) \<and> \<not> isl (snd (?f 2))" by simp
  have a: "attempts (fst (withRetry ?f 3 1000)) = 3"
    using F[THEN conjunct1, rule_format, OF k2] by simp
  have b: "attempts (fst (withRetry ?g 3 1000)) = 3"
    using G[THEN conjunct2, THEN conjunct1] by simp
  have c: "fst (withRetry ?f 3 1000) = retry_trace ?f 1000 0 2"
    using F[THEN conjunct2, THEN conjunct2, THEN conjunct1] a by simp
  have d: "retry_trace ?f 1000 0 2 = [Attempt 0 [], Wait 1000, Attempt 1 [], Wait 2000, Attempt 2 []]"
    by (simp add: retry_trace_def backoffMultiplier_def upt_conv_Cons)
  from a b c d show ?thesis
    by (simp add: withRetry_default_def)
qed


section \<open>Facts about mergeShortSegments\<close>

subsection \<open>Rounding to binary64\<close>

lemma exponentSearch_range: "- 1022 \<le> exponentSearch a n \<and> exponentSearch a n \<le> int n - 1022"
  by (induction n) auto

lemma exponentSearch_le: "exponentSearch a n \<noteq> - 1022 \<Longrightarrow> 2 powi (exponentSearch a n) \<le> a"
  by (induction n) (auto split: if_splits)

lemma exponentSearch_less:
  "exponentSearch a n < k \<Longrightarrow> k \<le> int n - 1022 \<Longrightarrow> a < 2 powi k"
proof (induction n)
  case 0
  then show ?case by simp
next
  case (Suc n)
  show ?case
  proof (cases "2 powi (int (Suc n) - 1022) \<le> a")
    case True
    then show ?thesis using Suc.prems by simp
  next
    case False
    show ?thesis
    proof (cases "k = int (Suc n) - 1022")
      case True
      then show ?thesis using False by simp
    next
      case neq: False
      then show ?thesis using Suc False by simp
    qed
  qed
qed

lemma exponent64_ge2:
  assumes "2 \<le> x"
  shows "1 \<le> exponent64 x \<and> 2 powi (exponent64 x) \<le> x"
proof -
  have k: "1 \<le> exponent64 x"
  proof (rule ccontr)
    assume "\<not> 1 \<le> exponent64 x"
    then have "exponentSearch \<bar>x\<bar> 2045 < 1" by (simp add: exponent64_def)
    then have "\<bar>x\<bar> < 2 powi 1" by (rule exponentSearch_less) simp
    then show False using assms by simp
  qed
  then have "exponentSearch \<bar>x\<bar> 2045 \<noteq> - 1022" by (simp add: exponent64_def)
  then have "2 powi (exponent64 x) \<le> \<bar>x\<bar>"
    unfolding exponent64_def by (rule exponentSearch_le)
  then show ?thesis using k assms by simp
qed

lemma exponent64_unit:
  assumes "1 \<le> x" and "x < 2"
  shows "exponent64 x = 0"
proof -
  have a: "\<bar>x\<bar> = x" using assms by simp
  have "\<not> exponent64 x < 0"
  proof
    assume "exponent64 x < 0"
    then have "exponentSearch \<bar>x\<bar> 2045 < 0" by (simp add: exponent64_def)
    then have "\<bar>x\<bar> < 2 powi 0" by (rule exponentSearch_less) simp
    then show False using assms by simp
  qed
  moreover have "\<not> 0 < exponent64 x"
  proof
    assume p: "0 < exponent64 x"
    then have "exponentSearch \<bar>x\<bar> 2045 \<noteq> - 1022" by (simp add: exponent64_def)
    then have "2 powi (exponent64 x) \<le> \<bar>x\<bar>"
      unfolding exponent64_def by (rule exponentSearch_le)
    moreover have "(2::real) powi 1 \<le> 2 powi (exponent64 x)"
      using p by (intro power_int_increasing) simp_all
    ultimately show False using assms by simp
  qed
  ultimately show ?thesis by simp
qed

lemma exponent64_small:
  assumes "0 < x" and "x < 1"
  shows "exponent64 x < 0 \<and> x < 2 powi (exponent64 x + 1)"
proof -
  have a: "\<bar>x\<bar> = x" using assms by simp
  have k: "exponent64 x < 0"
  proof (rule ccontr)
    assume "\<not> exponent64 x < 0"
    then have p: "0 \<le> exponent64 x" by simp
    then have "exponentSearch \<bar>x\<bar> 2045 \<noteq> - 1022" by (simp add: exponent64_def)
    then have "2 powi (exponent64 x) \<le> \<bar>x\<bar>"
      unfolding exponent64_def by (rule exponentSearch_le)
    moreover have "(2::real) powi 0 \<le> 2 powi (exponent64 x)"
      using p by (intro power_int_increasing) simp_all
    ultimately show False using assms by simp
  qed
  have "exponentSearch \<bar>x\<bar> 2045 < exponent64 x + 1" by (simp add: exponent64_def)
  then have "\<bar>x\<bar> < 2 powi (exponent64 x + 1)"
    by (rule exponentSearch_less) (use k in simp)
  then show ?thesis using k a by simp
qed

lemma roundHalfEven_ge: "of_int n \<le> y \<Longrightarrow> n \<le> roundHalfEven y"
proof -
  assume "of_int n \<le> y"
  then have "n \<le> \<lfloor>y\<rfloor>" by (simp add: le_floor_iff)
  then show ?thesis by (auto simp: roundHalfEven_def Let_def)
qed

lemma roundHalfEven_le: "y \<le> of_int n \<Longrightarrow> roundHalfEven y \<le> n"
proof (cases "y = of_int n")
  case True
  then show ?thesis by (simp add: roundHalfEven_def)
next
  case False
  assume "y \<le> of_int n"
  then have "y < of_int n" using False by simp
  then have "\<lfloor>y\<rfloor> < n" by (simp add: floor_less_iff)
  then show ?thesis by (auto simp: roundHalfEven_def Let_def)
qed

lemma roundHalfEven_odd:
  assumes "odd n"
  shows "roundHalfEven y \<le> n \<longleftrightarrow> y < of_int n + 1 / 2"
proof
  assume r: "roundHalfEven y \<le> n"
  show "y < of_int n + 1 / 2"
  proof (rule ccontr)
    assume "\<not> y < of_int n + 1 / 2"
    then have y: "of_int n + 1 / 2 \<le> y" by simp
    then have "of_int n \<le> y" by simp
    then have f: "n \<le> \<lfloor>y\<rfloor>" by (simp add: le_floor_iff)
    show False
    proof (cases "\<lfloor>y\<rfloor> = n")
      case True
      then have "1 / 2 \<le> y - of_int \<lfloor>y\<rfloor>" using y by simp
      then have "roundHalfEven y = n + 1"
        using True assms by (auto simp: roundHalfEven_def Let_def)
      then show False using r by simp
    next
      case False
      then have "n + 1 \<le> \<lfloor>y\<rfloor>" using f by simp
      moreover have "\<lfloor>y\<rfloor> \<le> roundHalfEven y" by (auto simp: roundHalfEven_def Let_def)
      ultimately show False using r by simp
    qed
  qed
next
  assume y: "y < of_int n + 1 / 2"
  then have "y < of_int (n + 1)" by simp
  then have "\<lfloor>y\<rfloor> < n + 1" by (simp only: floor_less_iff)
  then have f: "\<lfloor>y\<rfloor> \<le> n" by simp
  show "roundHalfEven y \<le> n"
  proof (cases "\<lfloor>y\<rfloor> = n")
    case True
    then have "y - of_int \<lfloor>y\<rfloor> < 1 / 2" using y by simp
    then show ?thesis using True by (simp add: roundHalfEven_def Let_def)
  next
    case False
    then have "\<lfloor>y\<rfloor> + 1 \<le> n" using f by simp
    moreover have "roundHalfEven y \<le> \<lfloor>y\<rfloor> + 1" by (auto simp: roundHalfEven_def Let_def)
    ultimately show ?thesis by simp
  qed
qed

lemma powi_split: "(2::real) powi k = 2 ^ n * 2 powi (k - int n)"
proof -
  have "(2::real) powi (int n + (k - int n)) = 2 powi int n * 2 powi (k - int n)"
    by (rule power_int_add) simp
  then show ?thesis by simp
qed

lemma round64_less_2: "round64 x < 2 \<longleftrightarrow> x < 2 - 1 / 2 ^ 53"
proof -
  consider "2 \<le> x" | "1 \<le> x" "x < 2" | "0 < x" "x < 1" | "x \<le> 0" by linarith
  then show ?thesis
  proof cases
    case 1
    let ?k = "exponent64 x"
    let ?u = "(2::real) powi (?k - 52)"
    have u: "0 < ?u" by (simp add: zero_less_power_int)
    have k: "1 \<le> ?k" "2 powi ?k \<le> x" using exponent64_ge2[OF 1] by simp_all
    have e: "(2::real) powi ?k = 2 ^ 52 * ?u"
      using powi_split[of ?k 52] by simp
    then have "of_int (2 ^ 52) * ?u \<le> x" using k(2) by simp
    then have "of_int (2 ^ 52) \<le> x / ?u" using u by (simp add: pos_le_divide_eq)
    then have "2 ^ 52 \<le> roundHalfEven (x / ?u)" by (rule roundHalfEven_ge)
    then have "(2::real) ^ 52 \<le> of_int (roundHalfEven (x / ?u))"
      by (metis of_int_le_iff of_int_numeral of_int_power)
    then have a: "2 ^ 52 * ?u \<le> of_int (roundHalfEven (x / ?u)) * ?u"
      using u by (simp only: mult_le_cancel_right_pos)
    have c: "2 powi ?k \<le> of_int (roundHalfEven (x / ?u)) * ?u"
      unfolding e by (rule a)
    have "(2::real) powi 1 \<le> 2 powi ?k"
      using k(1) by (intro power_int_increasing) simp_all
    then have b: "2 \<le> (2::real) powi ?k" by simp
    have "2 \<le> round64 x"
      unfolding round64_def Let_def using b c by linarith
    moreover have "2 - 1 / 2 ^ 53 < (2::real)" by simp
    ultimately show ?thesis using 1 by linarith
  next
    case 2
    have k: "exponent64 x = 0" using 2 by (rule exponent64_unit)
    have u: "(2::real) powi (0 - 52) = 1 / 2 ^ 52" by (simp add: power_int_minus field_simps)
    have r: "round64 x = of_int (roundHalfEven (x * 2 ^ 52)) / 2 ^ 52"
      by (simp add: round64_def Let_def k u)
    have "round64 x < 2 \<longleftrightarrow> of_int (roundHalfEven (x * 2 ^ 52)) < (2::real) * 2 ^ 52"
      unfolding r by (simp add: pos_divide_less_eq)
    also have "\<dots> \<longleftrightarrow> roundHalfEven (x * 2 ^ 52) < 2 ^ 53"
      by (metis of_int_less_iff of_int_numeral of_int_power power_Suc eval_nat_numeral(3) semiring_norm(26,27) numeral_plus_one)
    also have "\<dots> \<longleftrightarrow> roundHalfEven (x * 2 ^ 52) \<le> 2 ^ 53 - 1"
      by (simp only: zle_diff1_eq)
    also have "\<dots> \<longleftrightarrow> x * 2 ^ 52 < of_int (2 ^ 53 - 1) + 1 / 2"
      by (rule roundHalfEven_odd) simp
    also have "\<dots> \<longleftrightarrow> x < 2 - 1 / 2 ^ 53"
      by (simp add: field_simps)
    finally show ?thesis .
  next
    case 3
    let ?k = "exponent64 x"
    let ?u = "(2::real) powi (?k - 52)"
    have u: "0 < ?u" by (simp add: zero_less_power_int)
    have k: "?k < 0" "x < 2 powi (?k + 1)" using exponent64_small[OF 3] by simp_all
    have e: "(2::real) powi (?k + 1) = 2 ^ 53 * ?u"
      using powi_split[of "?k + 1" 53] by simp
    then have "x \<le> of_int (2 ^ 53) * ?u" using k(2) by simp
    then have "x / ?u \<le> of_int (2 ^ 53)" using u by (simp add: pos_divide_le_eq)
    then have "roundHalfEven (x / ?u) \<le> 2 ^ 53" by (rule roundHalfEven_le)
    then have "of_int (roundHalfEven (x / ?u)) \<le> (2::real) ^ 53"
      by (metis of_int_le_iff of_int_numeral of_int_power)
    then have a: "of_int (roundHalfEven (x / ?u)) * ?u \<le> 2 ^ 53 * ?u"
      using u by (simp only: mult_le_cancel_right_pos)
    have c: "of_int (roundHalfEven (x / ?u)) * ?u \<le> 2 powi (?k + 1)"
      unfolding e by (rule a)
    have "(2::real) powi (?k + 1) \<le> 2 powi 0"
      using k(1) by (intro power_int_increasing) simp_all
    then have b: "(2::real) powi (?k + 1) \<le> 1" by simp
    have "round64 x \<le> 1"
      unfolding round64_def Let_def using b c by linarith
    moreover have "(1::real) < 2 - 1 / 2 ^ 53" by simp
    ultimately show ?thesis using 3 by linarith
  next
    case 4
    let ?u = "(2::real) powi (exponent64 x - 52)"
    have u: "0 < ?u" by (simp add: zero_less_power_int)
    have "x / ?u \<le> of_int 0" using 4 u by (simp add: divide_le_0_iff)
    then have "roundHalfEven (x / ?u) \<le> 0" by (rule roundHalfEven_le)
    then have "of_int (roundHalfEven (x / ?u)) * ?u \<le> 0"
      using u by (simp add: mult_le_0_iff)
    then have "round64 x \<le> 0" by (simp add: round64_def Let_def)
    moreover have "(0::real) < 2 - 1 / 2 ^ 53" by simp
    ultimately show ?thesis using 4 by linarith
  qed
qed

lemma isShort_iff:
  "isShort s \<longleftrightarrow> length (split_space (text' s)) < 4 \<and> end' s - start s < 2 - 1 / 2 ^ 53"
  by (simp add: isShort_def MIN_WORDS_def fsub_def round64_less_2)

subsection \<open>The pass\<close>

lemma mergeShortSegments_loop_merged:
  "mergeShortSegments_loop current merged rest = merged @ mergeShortSegments_loop current [] rest"
proof (induction rest arbitrary: current merged)
  case Nil
  show ?case by simp
next
  case (Cons nxt rest)
  show ?case
  proof (cases "isShort current")
    case True
    then show ?thesis using Cons.IH[of "mergeInto current nxt" merged] by simp
  next
    case False
    then show ?thesis
      using Cons.IH[of nxt "merged @ [current]"] Cons.IH[of nxt "[current]"] by simp
  qed
qed

lemma mergeShortSegments_Cons:
  "mergeShortSegments (s # segs) = mergeShortSegments_loop s [] segs"
  by (simp add: mergeShortSegments_def)

lemma mergeShortSegments_step:
  "mergeShortSegments (cur # nxt # rest) =
     (if isShort cur then mergeShortSegments (mergeInto cur nxt # rest)
      else cur # mergeShortSegments (nxt # rest))"
  using mergeShortSegments_loop_merged[of nxt "[cur]" rest]
  by (simp add: mergeShortSegments_Cons)

lemma split_space_no_space:
  "\<forall>c\<in>set s. \<not> isSpace c \<Longrightarrow> split_space s = [s]"
  by (subst split_space.simps) (simp add: dropWhile_eq_Nil_conv)

lemma split_space_Uh: "split_space ''Uh'' = [''Uh'']"
  by (rule split_space_no_space) (simp add: isSpace_def)




lemma split_space_ends:
  "split_space [] = [[]]"
  "split_space ''a b c '' = [''a'', ''b'', ''c'', []]"
  "split_space '' a'' = [[], ''a'']"
  "wordsOf ''a b c '' = [''a'', ''b'', ''c'']"
  by code_simp+






subsection \<open>Order of the output\<close>

lemma start_mergeInto [simp]: "start (mergeInto a b) = start a"
  by (simp add: mergeInto_def)

lemma end_mergeInto [simp]: "end' (mergeInto a b) = end' b"
  by (simp add: mergeInto_def)

lemma mergeShortSegments_loop_order:
  assumes "\<forall>x\<in>set rest. start cur \<le> start x"
    and "sorted (map start rest)"
    and "successively (\<lambda>a b. end' a \<le> start b) (cur # rest)"
  shows "mergeShortSegments_loop cur [] rest \<noteq> []
       \<and> start (hd (mergeShortSegments_loop cur [] rest)) = start cur
       \<and> (\<forall>y\<in>set (mergeShortSegments_loop cur [] rest). start cur \<le> start y)
       \<and> sorted (map start (mergeShortSegments_loop cur [] rest))
       \<and> successively (\<lambda>a b. end' a \<le> start b) (mergeShortSegments_loop cur [] rest)
       \<and> subseq (map start (mergeShortSegments_loop cur [] rest)) (start cur # map start rest)"
  using assms
proof (induction rest arbitrary: cur)
  case Nil
  show ?case by simp
next
  case (Cons nxt rest)
  show ?case
  proof (cases "isShort cur")
    case True
    let ?c = "mergeInto cur nxt"
    have p1: "\<forall>x\<in>set rest. start ?c \<le> start x" using Cons.prems(1) by simp
    have p2: "sorted (map start rest)" using Cons.prems(2) by simp
    have p3: "successively (\<lambda>a b. end' a \<le> start b) (?c # rest)"
      using Cons.prems(3) by (cases rest) auto
    note IH = Cons.IH[OF p1 p2 p3]
    have eq: "mergeShortSegments_loop cur [] (nxt # rest) = mergeShortSegments_loop ?c [] rest"
      using True by simp
    have a: "subseq (start cur # map start rest) (start cur # map start (nxt # rest))"
      by (simp add: list_emb_Cons)
    have b: "subseq (map start (mergeShortSegments_loop ?c [] rest)) (start cur # map start rest)"
      using IH by simp
    have "subseq (map start (mergeShortSegments_loop ?c [] rest)) (start cur # map start (nxt # rest))"
      by (rule subseq_order.trans[OF b a])
    then show ?thesis unfolding eq using IH by simp
  next
    case False
    have p1: "\<forall>x\<in>set rest. start nxt \<le> start x" using Cons.prems(2) by simp
    have p2: "sorted (map start rest)" using Cons.prems(2) by simp
    have p3: "successively (\<lambda>a b. end' a \<le> start b) (nxt # rest)"
      using Cons.prems(3) by simp
    note IH = Cons.IH[OF p1 p2 p3]
    let ?out = "mergeShortSegments_loop nxt [] rest"
    have eq: "mergeShortSegments_loop cur [] (nxt # rest) = cur # ?out"
      using False mergeShortSegments_loop_merged[of nxt "[cur]" rest] by simp
    have le: "start cur \<le> start nxt" "end' cur \<le> start nxt"
      using Cons.prems(1,3) by simp_all
    have s: "sorted (map start (cur # ?out))" using IH le by fastforce
    have n: "successively (\<lambda>a b. end' a \<le> start b) (cur # ?out)"
      using IH le by (simp add: successively_Cons)
    have b: "\<forall>y\<in>set (cur # ?out). start cur \<le> start y" using IH le by fastforce
    have q: "subseq (map start (cur # ?out)) (start cur # map start (nxt # rest))"
      using IH by simp
    show ?thesis unfolding eq using s n b q by simp
  qed
qed

text \<open>
  Claim C8. When the input is in non-decreasing order of \<open>start\<close> and each segment ends
  no later than the next one starts, the output is in non-decreasing order of \<open>start\<close>
  and non-overlapping in the same sense, and its \<open>start\<close> values are a subsequence of the
  input's: nothing is reordered.
\<close>

theorem mergeShortSegments_keeps_order:
  assumes "startOrdered segs" and "nonOverlapping segs"
  shows "startOrdered (mergeShortSegments segs)
       \<and> nonOverlapping (mergeShortSegments segs)
       \<and> subseq (map start (mergeShortSegments segs)) (map start segs)"
proof (cases segs)
  case Nil
  then show ?thesis
    by (simp add: mergeShortSegments_def startOrdered_def nonOverlapping_def)
next
  case (Cons s rest)
  have "\<forall>x\<in>set rest. start s \<le> start x" "sorted (map start rest)"
    using assms(1) Cons by (simp_all add: startOrdered_def)
  moreover have "successively (\<lambda>a b. end' a \<le> start b) (s # rest)"
    using assms(2) Cons by (simp add: nonOverlapping_def)
  ultimately show ?thesis
    using mergeShortSegments_loop_order[of rest s] Cons
    by (simp add: mergeShortSegments_Cons startOrdered_def nonOverlapping_def)
qed

theorem mergeShortSegments_keeps_order_witness:
  "startOrdered
     [\<lparr>start = 0, end' = 0.5, text' = ''Uh'', translation = ''a'', idiomatic = ''b'',
       idiomExplanation = ''c'', isFavorite = None\<rparr>,
      \<lparr>start = 0.5, end' = 3, text' = ''well I think so'', translation = ''d'', idiomatic = [],
       idiomExplanation = ''e'', isFavorite = None\<rparr>,
      \<lparr>start = 3, end' = 4, text' = ''ok'', translation = ''f'', idiomatic = ''g'',
       idiomExplanation = ''h'', isFavorite = None\<rparr>]
   \<and> map start (mergeShortSegments
     [\<lparr>start = 0, end' = 0.5, text' = ''Uh'', translation = ''a'', idiomatic = ''b'',
       idiomExplanation = ''c'', isFavorite = None\<rparr>,
      \<lparr>start = 0.5, end' = 3, text' = ''well I think so'', translation = ''d'', idiomatic = [],
       idiomExplanation = ''e'', isFavorite = None\<rparr>,
      \<lparr>start = 3, end' = 4, text' = ''ok'', translation = ''f'', idiomatic = ''g'',
       idiomExplanation = ''h'', isFavorite = None\<rparr>]) = [0, 3]
   \<and> nonOverlapping (mergeShortSegments
     [\<lparr>start = 0, end' = 0.5, text' = ''Uh'', translation = ''a'', idiomatic = ''b'',
       idiomExplanation = ''c'', isFavorite = None\<rparr>,
      \<lparr>start = 0.5, end' = 3, text' = ''well I think so'', translation = ''d'', idiomatic = [],
       idiomExplanation = ''e'', isFavorite = None\<rparr>,
      \<lparr>start = 3, end' = 4, text' = ''ok'', translation = ''f'', idiomatic = ''g'',
       idiomExplanation = ''h'', isFavorite = None\<rparr>])"
proof -
  let ?segs = "[\<lparr>start = 0, end' = 0.5, text' = ''Uh'', translation = ''a'', idiomatic = ''b'',
       idiomExplanation = ''c'', isFavorite = None\<rparr>,
      \<lparr>start = 0.5, end' = 3, text' = ''well I think so'', translation = ''d'', idiomatic = [],
       idiomExplanation = ''e'', isFavorite = None\<rparr>,
      \<lparr>start = 3, end' = 4, text' = ''ok'', translation = ''f'', idiomatic = ''g'',
       idiomExplanation = ''h'', isFavorite = None\<rparr>]"
  have o: "startOrdered ?segs" by (simp add: startOrdered_def)
  have n: "nonOverlapping ?segs" by (simp add: nonOverlapping_def)
  have w: "length (split_space ''Uh well I think so'') = 5" by code_simp
  have m: "map start (mergeShortSegments ?segs) = [0, 3]"
    by (simp add: mergeShortSegments_step isShort_iff split_space_Uh mergeInto_def w
          mergeShortSegments_def)
  show ?thesis
    using mergeShortSegments_keeps_order[OF o n] o m by simp
qed

subsection \<open>Lists that the merger leaves alone\<close>





section \<open>Facts about getCorrectMimeType\<close>

lemma split_char_not_Nil: "split_char c s \<noteq> []"
  by (subst split_char.simps) (simp add: Let_def)

lemma takeWhile_append_stop: "\<not> P c \<Longrightarrow> takeWhile P (xs @ c # ys) = takeWhile P xs"
  by (induction xs) auto

lemma last_split_char: "last (split_char c s) = rev (takeWhile (\<lambda>x. x \<noteq> c) (rev s))"
proof (induction c s rule: split_char.induct)
  case (1 c s)
  show ?case
  proof (cases "dropWhile (\<lambda>x. x \<noteq> c) s = []")
    case True
    then have all: "\<forall>x\<in>set s. x \<noteq> c" by (simp add: dropWhile_eq_Nil_conv)
    then have tw: "takeWhile (\<lambda>x. x \<noteq> c) (rev s) = rev s"
      by (simp add: takeWhile_eq_all_conv)
    have sp: "split_char c s = [s]"
      using True by (subst split_char.simps) simp
    show ?thesis unfolding sp tw by simp
  next
    case False
    define pre where "pre = takeWhile (\<lambda>x. x \<noteq> c) s"
    define rest where "rest = dropWhile (\<lambda>x. x \<noteq> c) s"
    have s: "s = pre @ rest" by (simp add: pre_def rest_def)
    have hd: "hd rest = c" using False hd_dropWhile[of "\<lambda>x. x \<noteq> c" s] by (simp add: rest_def)
    have ne: "rest \<noteq> []" using False by (simp add: rest_def)
    have "hd rest # tl rest = rest" using ne by (rule hd_Cons_tl)
    then have rest: "rest = c # tl rest" unfolding hd by (rule sym)
    have sp: "split_char c s = pre # split_char c (tl rest)"
      unfolding pre_def rest_def
      using False split_char.simps[of c s] by (simp only: Let_def if_False)
    have IH: "last (split_char c (tl rest)) = rev (takeWhile (\<lambda>x. x \<noteq> c) (rev (tl rest)))"
      using 1[OF rest_def[symmetric, THEN sym]] False by (simp add: rest_def)
    have "rev s = rev (tl rest) @ c # rev pre" using s rest by (metis rev.simps(2) rev_append append.assoc append_Cons append_Nil)
    then have "takeWhile (\<lambda>x. x \<noteq> c) (rev s) = takeWhile (\<lambda>x. x \<noteq> c) (rev (tl rest))"
      by (simp add: takeWhile_append_stop)
    then show ?thesis using sp IH split_char_not_Nil[of c "tl rest"] by simp
  qed
qed

lemma pop_split_char: "pop (split_char CHR ''.'' n) = Some (extension n)"
  by (simp add: pop_def split_char_not_Nil last_split_char extension_def)

lemma knownMimeTypes_truthy: "map_of knownMimeTypes ext = Some m \<Longrightarrow> m \<noteq> []"
  by (auto simp: knownMimeTypes_def split: if_splits)

lemma knownMimeTypes_nonempty_key: "map_of knownMimeTypes [] = None"
  by (simp add: knownMimeTypes_def)

lemma objectPrototypeKeys_nonempty: "[] \<notin> set objectPrototypeKeys"
  by (simp add: objectPrototypeKeys_def)

lemma getCorrectMimeType_untrusted:
  assumes "\<not> (type' f \<noteq> [] \<and> (startsWith (type' f) ''audio/'' \<or> startsWith (type' f) ''video/''))"
  shows "getCorrectMimeType f =
           (case getProperty knownMimeTypes (toLowerCase (extension (name f))) of
              Some v \<Rightarrow> v | None \<Rightarrow> JsString ''audio/mp3'')"
proof -
  let ?ext = "toLowerCase (extension (name f))"
  have base: "getCorrectMimeType f =
     (if ?ext \<noteq> [] \<and> truthy (getProperty knownMimeTypes ?ext)
      then (case getProperty knownMimeTypes ?ext of Some v \<Rightarrow> v | None \<Rightarrow> JsString ''audio/mp3'')
      else JsString ''audio/mp3'')"
    unfolding getCorrectMimeType_def using assms
    by (simp only: if_False pop_split_char option.map option.case)
  show ?thesis
  proof (cases "map_of knownMimeTypes ?ext")
    case (Some m)
    then have "m \<noteq> []" by (rule knownMimeTypes_truthy)
    moreover have "?ext \<noteq> []" using Some knownMimeTypes_nonempty_key by auto
    ultimately show ?thesis
      using Some by (simp add: base getProperty_def)
  next
    case None
    show ?thesis
    proof (cases "?ext \<in> set objectPrototypeKeys")
      case True
      then have "?ext \<noteq> []" using objectPrototypeKeys_nonempty by auto
      then show ?thesis
        using None True by (simp add: base getProperty_def)
    next
      case False
      then show ?thesis
        using None by (simp add: base getProperty_def)
    qed
  qed
qed

lemma getCorrectMimeType_resolveMime:
  assumes "toLowerCase (extension (name f)) \<notin> set objectPrototypeKeys"
  shows "getCorrectMimeType f = JsString (resolveMime f)"
proof (cases "type' f \<noteq> [] \<and> (startsWith (type' f) ''audio/'' \<or> startsWith (type' f) ''video/'')")
  case True
  then show ?thesis by (simp add: getCorrectMimeType_def resolveMime_def)
next
  case False
  then show ?thesis
    using assms getCorrectMimeType_untrusted[OF False]
    by (auto simp: resolveMime_def getProperty_def split: option.splits)
qed

lemma lowerChar_not_upper: "lowerChar c \<notin> set upperChars"
proof (cases "map_of (zip upperChars lowerChars) c")
  case None
  have len: "length upperChars = length lowerChars"
    by (simp add: upperChars_def lowerChars_def)
  have "c \<notin> set upperChars"
    using None map_of_zip_is_None[OF len, of c] by simp
  then show ?thesis using None by (simp add: lowerChar_def)
next
  case (Some l)
  then have "l \<in> set lowerChars"
    by (meson map_of_SomeD set_zip_rightD)
  moreover have "\<forall>x\<in>set lowerChars. x \<notin> set upperChars"
    by (simp add: upperChars_def lowerChars_def)
  ultimately show ?thesis using Some by (simp add: lowerChar_def)
qed

lemma inherited_lower_keys:
  assumes "toLowerCase e \<in> set objectPrototypeKeys"
  shows "toLowerCase e = ''constructor'' \<or> toLowerCase e = ''__proto__''"
proof -
  have no: "\<forall>c\<in>set (toLowerCase e). c \<notin> set upperChars"
    by (simp add: toLowerCase_def lowerChar_not_upper)
  have "\<forall>k\<in>set objectPrototypeKeys.
          (\<forall>c\<in>set k. c \<notin> set upperChars) \<longrightarrow> k = ''constructor'' \<or> k = ''__proto__''"
    by (simp add: objectPrototypeKeys_def upperChars_def)
  with assms no show ?thesis by blast
qed

lemma getCorrectMimeType_examples:
  "getCorrectMimeType \<lparr>name = ''clip.M4A'', type' = []\<rparr> = JsString ''audio/mp4''"
  "getCorrectMimeType \<lparr>name = ''x.bin'', type' = ''application/octet-stream''\<rparr> = JsString ''audio/mp3''"
  "getCorrectMimeType \<lparr>name = ''a.wav'', type' = ''audio/x-custom''\<rparr> = JsString ''audio/x-custom''"
  by code_simp+

text \<open>
  Claim C5 says that every declared type outside \<open>audio/\<close> and \<open>video/\<close> leads to a
  lookup of the lower-cased extension in the table of nine entries, with \<open>audio/mp3\<close>
  when there is no match. For a file named \<open>clip.constructor\<close> with the declared type
  \<open>application/ogg\<close> the table has no entry, yet the code does not return \<open>audio/mp3\<close>:
  the property read \<^verbatim>\<open>knownMimeTypes[ext]\<close> finds the member \<open>constructor\<close> that the object
  literal inherits, it is truthy, and it is returned. Wherever the lower-cased extension is
  not such an inherited name the code does agree with the claim
  (\<open>getCorrectMimeType_resolveMime\<close>), and the three examples of the claim hold
  (\<open>getCorrectMimeType_examples\<close>).
\<close>

theorem getCorrectMimeType_inherited_member:
  "getCorrectMimeType \<lparr>name = ''clip.constructor'', type' = ''application/ogg''\<rparr>
     = Inherited ''constructor''
   \<and> map_of knownMimeTypes (toLowerCase (extension ''clip.constructor'')) = None
   \<and> getCorrectMimeType \<lparr>name = ''clip.constructor'', type' = ''application/ogg''\<rparr>
       \<noteq> JsString ''audio/mp3''"
  by code_simp

text \<open>
  Claim C10. When the declared type is empty or starts with neither \<open>audio/\<close> nor
  \<open>video/\<close>, and the name has no dot, the whole lower-cased name is what is looked up: an
  entry of the table under that name is the result, and \<open>audio/mp3\<close> is returned only
  when the table has no entry for it (or the entry is \<open>audio/mp3\<close> itself). A file named
  \<open>ogg\<close> resolves to \<open>audio/ogg\<close>. The lookup is the property read of the code, given by
  the first equation.
\<close>

theorem getCorrectMimeType_no_dot:
  assumes "\<not> (type' f \<noteq> [] \<and> (startsWith (type' f) ''audio/'' \<or> startsWith (type' f) ''video/''))"
    and "CHR ''.'' \<notin> set (name f)"
  shows "getCorrectMimeType f =
           (case getProperty knownMimeTypes (toLowerCase (name f)) of
              Some v \<Rightarrow> v | None \<Rightarrow> JsString ''audio/mp3'')
       \<and> (\<forall>m. map_of knownMimeTypes (toLowerCase (name f)) = Some m \<longrightarrow>
              getCorrectMimeType f = JsString m)
       \<and> (getCorrectMimeType f = JsString ''audio/mp3'' \<longrightarrow>
              map_of knownMimeTypes (toLowerCase (name f)) = None \<or>
              map_of knownMimeTypes (toLowerCase (name f)) = Some ''audio/mp3'')
       \<and> (name f = ''ogg'' \<longrightarrow> getCorrectMimeType f = JsString ''audio/ogg'')"
proof -
  have tw: "takeWhile (\<lambda>c. c \<noteq> CHR ''.'') (rev (name f)) = rev (name f)"
    using assms(2) by (auto simp: takeWhile_eq_all_conv)
  have ext: "extension (name f) = name f"
    unfolding extension_def tw by (rule rev_rev_ident)
  have eq: "getCorrectMimeType f =
           (case getProperty knownMimeTypes (toLowerCase (name f)) of
              Some v \<Rightarrow> v | None \<Rightarrow> JsString ''audio/mp3'')"
    using getCorrectMimeType_untrusted[OF assms(1)] by (simp add: ext)
  have hit: "getCorrectMimeType f = JsString m"
    if "map_of knownMimeTypes (toLowerCase (name f)) = Some m" for m
    using that eq by (simp add: getProperty_def)
  have dflt: "map_of knownMimeTypes (toLowerCase (name f)) = None \<or>
              map_of knownMimeTypes (toLowerCase (name f)) = Some ''audio/mp3''"
    if "getCorrectMimeType f = JsString ''audio/mp3''"
    using that eq by (cases "map_of knownMimeTypes (toLowerCase (name f))") (auto simp: getProperty_def)
  have ogg: "map_of knownMimeTypes (toLowerCase ''ogg'') = Some ''audio/ogg''"
    by (simp add: knownMimeTypes_def string_eval)
  show ?thesis using eq hit dflt ogg by auto
qed

theorem getCorrectMimeType_no_dot_witness:
  "getCorrectMimeType \<lparr>name = ''ogg'', type' = []\<rparr> = JsString ''audio/ogg''
   \<and> getCorrectMimeType \<lparr>name = ''README'', type' = ''application/octet-stream''\<rparr> = JsString ''audio/mp3''"
proof -
  let ?a = "\<lparr>name = ''ogg'', type' = []\<rparr>"
  let ?b = "\<lparr>name = ''README'', type' = ''application/octet-stream''\<rparr>"
  have ta: "\<not> (type' ?a \<noteq> [] \<and> (startsWith (type' ?a) ''audio/'' \<or> startsWith (type' ?a) ''video/''))"
    by simp
  have tb: "\<not> (type' ?b \<noteq> [] \<and> (startsWith (type' ?b) ''audio/'' \<or> startsWith (type' ?b) ''video/''))"
    by (simp add: startsWith_def)
  have da: "CHR ''.'' \<notin> set (name ?a)" and db: "CHR ''.'' \<notin> set (name ?b)"
    by simp_all
  have r: "getProperty knownMimeTypes (toLowerCase ''README'') = None"
    by code_simp
  have a: "getCorrectMimeType ?a = JsString ''audio/ogg''"
    using getCorrectMimeType_no_dot[OF ta da, THEN conjunct2, THEN conjunct2, THEN conjunct2]
    by simp
  have b: "getCorrectMimeType ?b = JsString ''audio/mp3''"
    using getCorrectMimeType_no_dot[OF tb db, THEN conjunct1] r by simp
  from a b show ?thesis by simp
qed


section \<open>Facts about cleanAndParseJson\<close>

subsection \<open>What the parser reads\<close>

lemma consumes_char: "c \<noteq> CHR 0x60 \<Longrightarrow> consumes (c # r) r"
  unfolding consumes_def by (rule exI[of _ "[c]"]) simp

lemma consumes_Cons: "consumes cs r \<Longrightarrow> consumes (c # cs) r"
  unfolding consumes_def
proof -
  assume "\<exists>p. cs = p @ r \<and> p \<noteq> [] \<and> last p \<noteq> CHR 0x60"
  then obtain p where "cs = p @ r" "p \<noteq> []" "last p \<noteq> CHR 0x60" by blast
  then have "c # cs = (c # p) @ r \<and> c # p \<noteq> [] \<and> last (c # p) \<noteq> CHR 0x60" by simp
  then show "\<exists>p. c # cs = p @ r \<and> p \<noteq> [] \<and> last p \<noteq> CHR 0x60" by blast
qed

lemma consumes_append: "consumes s r \<Longrightarrow> consumes (q @ s) r"
  by (induction q) (simp_all add: consumes_Cons)

lemma consumes_skipSpace: "consumes (skipSpace s) r \<Longrightarrow> consumes s r"
  using consumes_append[of "skipSpace s" r "takeWhile isJsonSpace s"]
  by (simp add: skipSpace_def)

lemma consumes_trans: "consumes s m \<Longrightarrow> consumes m r \<Longrightarrow> consumes s r"
  unfolding consumes_def
proof -
  assume "\<exists>p. s = p @ m \<and> p \<noteq> [] \<and> last p \<noteq> CHR 0x60"
    and "\<exists>p. m = p @ r \<and> p \<noteq> [] \<and> last p \<noteq> CHR 0x60"
  then obtain p q where "s = p @ m" "m = q @ r" "q \<noteq> []" "last q \<noteq> CHR 0x60" by blast
  then have "s = (p @ q) @ r \<and> p @ q \<noteq> [] \<and> last (p @ q) \<noteq> CHR 0x60" by simp
  then show "\<exists>p. s = p @ r \<and> p \<noteq> [] \<and> last p \<noteq> CHR 0x60" by blast
qed

lemma consumes_prefix: "p \<noteq> [] \<Longrightarrow> last p \<noteq> CHR 0x60 \<Longrightarrow> consumes (p @ r) r"
  unfolding consumes_def by blast

lemma consumes_startsWith:
  assumes "startsWith s p" "p \<noteq> []" "last p \<noteq> CHR 0x60"
  shows "consumes s (drop (length p) s)"
proof -
  obtain q where "s = p @ q" using assms(1) by (auto simp: startsWith_iff)
  then show ?thesis using consumes_prefix[OF assms(2,3), of q] by simp
qed

lemma consumes_literal:
  assumes "startsWith s p" "p \<noteq> []" "last p \<noteq> CHR 0x60" "r = drop n s" "n = length p"
  shows "consumes s r"
  using consumes_startsWith[OF assms(1,2,3)] assms(4,5) by simp

lemma parse_digits_consumes:
  assumes "parse_digits s = Some (ds, r)"
  shows "s = ds @ r \<and> ds \<noteq> [] \<and> (\<forall>c\<in>set ds. isDigit c)"
proof -
  have "ds = takeWhile isDigit s" "r = dropWhile isDigit s" "takeWhile isDigit s \<noteq> []"
    using assms by (auto simp: parse_digits_def split: if_splits)
  then show ?thesis by (auto dest: set_takeWhileD)
qed

lemma isDigit_not_backquote: "isDigit c \<Longrightarrow> c \<noteq> CHR 0x60"
  by (auto simp: isDigit_def)

lemma parse_digits_consumes': "parse_digits s = Some (ds, r) \<Longrightarrow> consumes s r"
proof -
  assume a: "parse_digits s = Some (ds, r)"
  note d = parse_digits_consumes[OF a]
  have "isDigit (last ds)" using d by simp
  then show ?thesis
    using d consumes_prefix[of ds r] isDigit_not_backquote by auto
qed

lemma parse_chars_consumes: "parse_chars s = Some (str, r) \<Longrightarrow> consumes s r"
proof (induction s arbitrary: str r rule: parse_chars.induct)
  case 1
  then show ?case by simp
next
  case (2 c cs)
  show ?case
  proof (cases "c = CHR 0x22")
    case True
    then have "r = cs" using 2(4) by simp
    then show ?thesis using True consumes_char[of c cs] by simp
  next
    case nq: False
    show ?thesis
    proof (cases "c = CHR 0x5C")
      case True
      show ?thesis
      proof (cases cs)
        case Nil
        then show ?thesis using 2(4) nq True by simp
      next
        case (Cons e cs')
        show ?thesis
        proof (cases "e \<in> set [CHR 0x22, CHR 0x5C, CHR ''/'', CHR ''b'', CHR ''f'', CHR ''n'', CHR ''r'', CHR ''t'']")
          case e1: True
          then obtain str' where "parse_chars cs' = Some (str', r)"
            using 2(4) nq True Cons by (auto split: if_splits)
          then have "consumes cs' r" using 2(1)[OF nq True Cons e1] by simp
          then show ?thesis using Cons by (simp add: consumes_Cons)
        next
          case e2: False
          show ?thesis
          proof (cases "e = CHR ''u'' \<and> 4 \<le> length cs' \<and> list_all isHex (take 4 cs')")
            case u: True
            then obtain str' where "parse_chars (drop 4 cs') = Some (str', r)"
              using 2(4) nq True Cons e2 by (auto split: if_splits)
            then have "consumes (drop 4 cs') r" using 2(2)[OF nq True Cons e2 u] by simp
            then have "consumes (take 4 cs' @ drop 4 cs') r" by (rule consumes_append)
            then show ?thesis using Cons by (simp add: consumes_Cons)
          next
            case False
            then show ?thesis using 2(4) nq True Cons e2 by (auto split: if_splits)
          qed
        qed
      qed
    next
      case nb: False
      show ?thesis
      proof (cases "c \<in> set controlChars")
        case True
        then show ?thesis using 2(4) nq nb by simp
      next
        case False
        then obtain str' where "parse_chars cs = Some (str', r)"
          using 2(4) nq nb by auto
        then have "consumes cs r" using 2(3)[OF nq nb False] by simp
        then show ?thesis by (rule consumes_Cons)
      qed
    qed
  qed
qed


lemma JSON_parse_examples:
  "JSON_parse ''-12.50e+3'' = Some (JNumber ''-12.50e+3'')"
  "JSON_parse ''0'' = Some (JNumber ''0'')"
  "JSON_parse ''01'' = None"
  "JSON_parse ''1.'' = None"
  "JSON_parse ''-'' = None"
  "JSON_parse ''1E5'' = Some (JNumber ''1E5'')"
  "JSON_parse ''1e'' = None"
  "JSON_parse ''[1, 2 ,3]'' = Some (JArray [JNumber ''1'', JNumber ''2'', JNumber ''3''])"
  "JSON_parse ''{\"a\": {\"b\": [null, false]}}''
     = Some (JObject [(''a'', JObject [(''b'', JArray [JNull, JBool False])])])"
  by code_simp+

lemma parse_int_consumes: "parse_int s = Some (ip, r) \<Longrightarrow> consumes s r"
proof (cases "startsWith s ''0''")
  case True
  assume "parse_int s = Some (ip, r)"
  then have "r = drop (length ''0'') s" using True by (auto simp: parse_int_def)
  then show ?thesis using consumes_startsWith[OF True] by simp
next
  case False
  assume "parse_int s = Some (ip, r)"
  then show ?thesis using False by (simp add: parse_int_def parse_digits_consumes')
qed

lemma parse_frac_reaches: "parse_frac s = Some (fp, r) \<Longrightarrow> reaches s r"
proof (cases "startsWith s ''.''")
  case True
  assume "parse_frac s = Some (fp, r)"
  then obtain ds where "parse_digits (drop 1 s) = Some (ds, r)"
    using True by (auto simp: parse_frac_def)
  then have "consumes (drop 1 s) r" by (rule parse_digits_consumes')
  then have "consumes (take 1 s @ drop 1 s) r" by (rule consumes_append)
  then show ?thesis by (simp add: reaches_def)
next
  case False
  assume "parse_frac s = Some (fp, r)"
  then show ?thesis using False by (simp add: parse_frac_def reaches_def)
qed

lemma parse_exp_reaches: "parse_exp s = Some (ep, r) \<Longrightarrow> reaches s r"
proof (cases "startsWith s ''e'' \<or> startsWith s ''E''")
  case True
  assume a: "parse_exp s = Some (ep, r)"
  show ?thesis
  proof (cases "startsWith (drop 1 s) ''+'' \<or> startsWith (drop 1 s) ''-''")
    case s: True
    then obtain ds where "parse_digits (drop 2 s) = Some (ds, r)"
      using a True by (auto simp: parse_exp_def)
    then have "consumes (drop 2 s) r" by (rule parse_digits_consumes')
    then have "consumes (take 2 s @ drop 2 s) r" by (rule consumes_append)
    then show ?thesis by (simp add: reaches_def)
  next
    case False
    then obtain ds where "parse_digits (drop 1 s) = Some (ds, r)"
      using a True by (auto simp: parse_exp_def)
    then have "consumes (drop 1 s) r" by (rule parse_digits_consumes')
    then have "consumes (take 1 s @ drop 1 s) r" by (rule consumes_append)
    then show ?thesis by (simp add: reaches_def)
  qed
next
  case False
  assume "parse_exp s = Some (ep, r)"
  then show ?thesis using False by (simp add: parse_exp_def reaches_def)
qed

lemma consumes_reaches: "consumes s m \<Longrightarrow> reaches m r \<Longrightarrow> consumes s r"
  unfolding reaches_def using consumes_trans by blast

lemma parse_sign_suffix: "parse_sign s = (sg, s1) \<Longrightarrow> \<exists>q. s = q @ s1"
proof -
  assume "parse_sign s = (sg, s1)"
  then have "s1 = s \<or> s1 = drop 1 s" by (auto simp: parse_sign_def split: if_splits)
  then show ?thesis by (metis append_Nil append_take_drop_id)
qed

lemma parse_number_consumes: "parse_number s = Some (lx, r) \<Longrightarrow> consumes s r"
proof -
  assume a: "parse_number s = Some (lx, r)"
  obtain sg s1 where sg: "parse_sign s = (sg, s1)" by (cases "parse_sign s")
  obtain ip s2 where ip: "parse_int s1 = Some (ip, s2)"
    using a sg by (auto simp: parse_number_def split: option.splits)
  obtain fp s3 where fp: "parse_frac s2 = Some (fp, s3)"
    using a sg ip by (auto simp: parse_number_def split: option.splits)
  obtain ep where ep: "parse_exp s3 = Some (ep, r)"
    using a sg ip fp by (auto simp: parse_number_def split: option.splits)
  have "consumes s1 r"
    using parse_int_consumes[OF ip] parse_frac_reaches[OF fp] parse_exp_reaches[OF ep]
    by (blast intro: consumes_reaches)
  moreover obtain q where "s = q @ s1" using parse_sign_suffix[OF sg] by blast
  ultimately show ?thesis by (simp add: consumes_append)
qed

lemma parse_consumes:
  "(parse_value n s = Some (v, r) \<longrightarrow> consumes s r)
   \<and> (parse_elements n s = Some (vs, r) \<longrightarrow> consumes s r)
   \<and> (parse_members n s = Some (ms, r) \<longrightarrow> consumes s r)"
proof (induction n arbitrary: s v vs ms r)
  case 0
  show ?case by simp
next
  case (Suc n)
  have V: "consumes s r" if a: "parse_value (Suc n) s = Some (v, r)"
  proof -
    obtain c cs where sk: "skipSpace s = c # cs"
      using a by (cases "skipSpace s") auto
    have "consumes (c # cs) r"
    proof -
      consider (obj) "c = CHR ''{''" | (arr) "c \<noteq> CHR ''{''" "c = CHR ''[''"
        | (str) "c \<noteq> CHR ''{''" "c \<noteq> CHR ''[''" "c = CHR 0x22"
        | (other) "c \<noteq> CHR ''{''" "c \<noteq> CHR ''[''" "c \<noteq> CHR 0x22"
        by blast
      then show ?thesis
      proof cases
        case obj
        show ?thesis
        proof (cases "startsWith (skipSpace cs) ''}''")
          case True
          have "consumes (skipSpace cs) r"
            by (rule consumes_literal[OF True, where n = 1]) (use a sk obj True in auto)
          then have "consumes cs r" by (rule consumes_skipSpace)
          then show ?thesis by (rule consumes_Cons)
        next
          case False
          then obtain ms' where "parse_members n cs = Some (ms', r)"
            using a sk obj by auto
          then show ?thesis using Suc by (blast intro: consumes_Cons)
        qed
      next
        case arr
        show ?thesis
        proof (cases "startsWith (skipSpace cs) '']''")
          case True
          have "consumes (skipSpace cs) r"
            by (rule consumes_literal[OF True, where n = 1]) (use a sk arr True in auto)
          then have "consumes cs r" by (rule consumes_skipSpace)
          then show ?thesis by (rule consumes_Cons)
        next
          case False
          then obtain vs' where "parse_elements n cs = Some (vs', r)"
            using a sk arr by auto
          then show ?thesis using Suc by (blast intro: consumes_Cons)
        qed
      next
        case str
        then obtain str' where "parse_chars cs = Some (str', r)"
          using a sk by auto
        then show ?thesis by (blast intro: consumes_Cons parse_chars_consumes)
      next
        case other
        show ?thesis
        proof (cases "startsWith (c # cs) ''true''")
          case True
              show ?thesis
                by (rule consumes_literal[OF True, where n = 4]) (use a sk other True in auto)
        next
          case nt: False
          show ?thesis
          proof (cases "startsWith (c # cs) ''false''")
            case True
              show ?thesis
                by (rule consumes_literal[OF True, where n = 5]) (use a sk other nt True in auto)
          next
            case nf: False
            show ?thesis
            proof (cases "startsWith (c # cs) ''null''")
              case True
              show ?thesis
                by (rule consumes_literal[OF True, where n = 4]) (use a sk other nt nf True in auto)
            next
              case False
              then obtain lx where "parse_number (c # cs) = Some (lx, r)"
                using a sk other nt nf by auto
              then show ?thesis by (rule parse_number_consumes)
            qed
          qed
        qed
      qed
    qed
    then show ?thesis using sk consumes_skipSpace[of s r] by simp
  qed
  have sep: "consumes r1 r"
    if "skipSpace r1 = c # cs" "c = CHR '','' \<and> consumes cs r \<or> c \<noteq> CHR 0x60 \<and> r = cs" for r1 c cs
  proof -
    have "consumes (c # cs) r" using that(2) consumes_Cons consumes_char by blast
    then show ?thesis using that(1) consumes_skipSpace[of r1 r] by simp
  qed
  have E: "consumes s r" if a: "parse_elements (Suc n) s = Some (vs, r)"
  proof -
    obtain v1 r1 where v1: "parse_value n s = Some (v1, r1)"
      using a by (auto split: option.splits)
    obtain c cs where sk: "skipSpace r1 = c # cs"
      using a v1 by (cases "skipSpace r1") auto
    have "c = CHR '','' \<and> consumes cs r \<or> c \<noteq> CHR 0x60 \<and> r = cs"
    proof (cases "c = CHR '',''")
      case True
      then obtain vs' where "parse_elements n cs = Some (vs', r)"
        using a v1 sk by auto
      then show ?thesis using Suc True by blast
    next
      case False
      then show ?thesis using a v1 sk by (auto split: if_splits)
    qed
    then have "consumes r1 r" using sep[OF sk] by blast
    moreover have "consumes s r1" using v1 Suc by blast
    ultimately show ?thesis using consumes_trans by blast
  qed
  have M: "consumes s r" if a: "parse_members (Suc n) s = Some (ms, r)"
  proof -
    obtain q s1 where sk1: "skipSpace s = q # s1"
      using a by (cases "skipSpace s") auto
    have q: "q = CHR 0x22" using a sk1 by (auto split: if_splits)
    obtain k s2 where k: "parse_chars s1 = Some (k, s2)"
      using a sk1 q by (auto split: option.splits)
    obtain colon s3 where sk2: "skipSpace s2 = colon # s3"
      using a sk1 q k by (cases "skipSpace s2") auto
    have colon: "colon = CHR '':''" using a sk1 q k sk2 by (auto split: if_splits)
    obtain v1 r1 where v1: "parse_value n s3 = Some (v1, r1)"
      using a sk1 q k sk2 colon by (auto split: option.splits)
    obtain c cs where sk3: "skipSpace r1 = c # cs"
      using a sk1 q k sk2 colon v1 by (cases "skipSpace r1") auto
    have "c = CHR '','' \<and> consumes cs r \<or> c \<noteq> CHR 0x60 \<and> r = cs"
    proof (cases "c = CHR '',''")
      case True
      then obtain ms' where "parse_members n cs = Some (ms', r)"
        using a sk1 q k sk2 colon v1 sk3 by auto
      then show ?thesis using Suc True by blast
    next
      case False
      then show ?thesis using a sk1 q k sk2 colon v1 sk3 by (auto split: if_splits)
    qed
    then have "consumes r1 r" using sep[OF sk3] by blast
    moreover have "consumes s3 r1" using v1 Suc by blast
    ultimately have "consumes s3 r" using consumes_trans by blast
    then have "consumes s2 r" using sk2 consumes_skipSpace[of s2 r] by (simp add: consumes_Cons)
    moreover have "consumes s1 s2" using k by (rule parse_chars_consumes)
    ultimately have "consumes s1 r" using consumes_trans by blast
    then show ?thesis using sk1 consumes_skipSpace[of s r] by (simp add: consumes_Cons)
  qed
  from V E M show ?case by blast
qed


lemma parse_value_backquote: "parse_value n (CHR 0x60 # cs) = None"
  by (cases n)
     (simp_all add: skipSpace_def isJsonSpace_def startsWith_def parse_number_def parse_sign_def
        parse_int_def parse_digits_def isDigit_def)

lemma skipSpace_Nil_last: "skipSpace r = [] \<Longrightarrow> r \<noteq> [] \<Longrightarrow> last r \<noteq> CHR 0x60"
proof -
  assume "skipSpace r = []" and "r \<noteq> []"
  then have "isJsonSpace (last r)"
    by (simp add: skipSpace_def dropWhile_eq_Nil_conv)
  then show ?thesis by (auto simp: isJsonSpace_def)
qed

lemma endsWith_last: "endsWith s p \<Longrightarrow> p \<noteq> [] \<Longrightarrow> s \<noteq> [] \<and> last s = last p"
proof -
  assume e: "endsWith s p" and p: "p \<noteq> []"
  then have "s = take (length s - length p) s @ p"
    by (metis append_take_drop_id endsWith_def)
  then show ?thesis using p by (metis append_is_Nil_conv last_appendR)
qed

lemma JSON_parse_no_fence:
  assumes "JSON_parse t = Some v"
  shows "\<not> startsWith t ''```json'' \<and> \<not> endsWith t ''```''"
proof
  obtain r where pv: "parse_value (2 * length t + 2) t = Some (v, r)" and sk: "skipSpace r = []"
    using assms by (auto simp: JSON_parse_def split: option.splits if_splits)
  show "\<not> startsWith t ''```json''"
  proof
    assume "startsWith t ''```json''"
    then obtain cs where "t = CHR 0x60 # cs" by (auto simp: startsWith_iff)
    then show False using pv parse_value_backquote by simp
  qed
  show "\<not> endsWith t ''```''"
  proof
    assume "endsWith t ''```''"
    then have l: "last t = CHR 0x60" using endsWith_last[of t "''```''"] by simp
    have "consumes t r" using pv parse_consumes by blast
    then obtain p where p: "t = p @ r" "p \<noteq> []" "last p \<noteq> CHR 0x60"
      by (auto simp: consumes_def)
    show False
    proof (cases "r = []")
      case True
      then show ?thesis using p l by simp
    next
      case False
      then show ?thesis using p l skipSpace_Nil_last[OF sk] by simp
    qed
  qed
qed

lemma cleanAndParseJson_valid:
  assumes "JSON_parse t = Some v"
  shows "stripTrailingFence (stripLeadingFence t) = t" and "cleanAndParseJson (Some t) = ([], Inr v)"
proof -
  show s: "stripTrailingFence (stripLeadingFence t) = t"
    using JSON_parse_no_fence[OF assms] by (simp add: stripLeadingFence_def stripTrailingFence_def)
  show "cleanAndParseJson (Some t) = ([], Inr v)"
    unfolding cleanAndParseJson_def using assms by (simp only: option.case Let_def s)
qed

text \<open>
  The depth bound of \<open>JSON_parse\<close> is enough: a run that succeeds with some bound
  succeeds with every bound from the number of characters it reads.
\<close>

lemma consumes_length: "consumes s r \<Longrightarrow> length r < length s"
  by (auto simp: consumes_def)

lemma parse_fuel:
  "(parse_value n s = Some (v, r) \<longrightarrow> (\<forall>m. length s - length r \<le> m \<longrightarrow> parse_value m s = Some (v, r)))
   \<and> (parse_elements n s = Some (vs, r) \<longrightarrow>
        (\<forall>m. length s - length r \<le> m \<longrightarrow> parse_elements m s = Some (vs, r)))
   \<and> (parse_members n s = Some (ms, r) \<longrightarrow>
        (\<forall>m. length s - length r \<le> m \<longrightarrow> parse_members m s = Some (ms, r)))"
proof (induction n arbitrary: s v vs ms r)
  case 0
  show ?case by simp
next
  case (Suc n)
  have skip_len: "length cs < length s'" if "skipSpace s' = c # cs" for s' c cs
  proof -
    have "length (skipSpace s') \<le> length s'" by (simp add: skipSpace_def length_dropWhile_le)
    then show ?thesis using that by simp
  qed
  have V: "parse_value m s = Some (v, r)"
    if a: "parse_value (Suc n) s = Some (v, r)" and m: "length s - length r \<le> m" for m
  proof -
    have cr: "consumes s r" using a parse_consumes by blast
    then have "0 < m" using m consumes_length[OF cr] by simp
    then obtain m' where m': "m = Suc m'" by (cases m) auto
    obtain c cs where sk: "skipSpace s = c # cs"
      using a by (cases "skipSpace s") auto
    have lcs: "length cs < length s" by (rule skip_len[OF sk])
    show ?thesis
    proof (cases "c = CHR ''{'' \<and> \<not> startsWith (skipSpace cs) ''}''")
      case True
      then obtain ms' where p: "parse_members n cs = Some (ms', r)" and v: "v = JObject ms'"
        using a sk by auto
      have "length cs - length r \<le> m'" using m m' lcs by simp
      then have "parse_members m' cs = Some (ms', r)" using Suc p by blast
      then show ?thesis using True sk v m' by simp
    next
      case no: False
      show ?thesis
      proof (cases "c \<noteq> CHR ''{'' \<and> c = CHR ''['' \<and> \<not> startsWith (skipSpace cs) '']''")
        case True
        then obtain vs' where p: "parse_elements n cs = Some (vs', r)" and v: "v = JArray vs'"
          using a sk by auto
        have "length cs - length r \<le> m'" using m m' lcs by simp
        then have "parse_elements m' cs = Some (vs', r)" using Suc p by blast
        then show ?thesis using True sk v m' by simp
      next
        case False
        have "parse_value (Suc n) s = parse_value (Suc m') s"
          using no False sk by (auto simp del: parse_chars.simps)
        then show ?thesis using a m' by simp
      qed
    qed
  qed
  have E: "parse_elements m s = Some (vs, r)"
    if a: "parse_elements (Suc n) s = Some (vs, r)" and m: "length s - length r \<le> m" for m
  proof -
    obtain v1 r1 where v1: "parse_value n s = Some (v1, r1)"
      using a by (auto split: option.splits)
    obtain c cs where sk: "skipSpace r1 = c # cs"
      using a v1 by (cases "skipSpace r1") auto
    have c1: "length r1 < length s" using v1 parse_consumes consumes_length by blast
    have lcs: "length cs < length r1" by (rule skip_len[OF sk])
    have rcs: "length r \<le> length cs"
    proof (cases "c = CHR '',''")
      case True
      then obtain vs' where "parse_elements n cs = Some (vs', r)" using a v1 sk by auto
      then show ?thesis using parse_consumes consumes_length less_imp_le by blast
    next
      case False
      then show ?thesis using a v1 sk by (auto split: if_splits)
    qed
    have "0 < m" using m c1 lcs rcs by simp
    then obtain m' where m': "m = Suc m'" by (cases m) auto
    have "length s - length r1 \<le> m'" using m m' c1 lcs rcs by simp
    then have pv: "parse_value m' s = Some (v1, r1)" using Suc v1 by blast
    show ?thesis
    proof (cases "c = CHR '',''")
      case True
      then obtain vs' where p: "parse_elements n cs = Some (vs', r)" and vs: "vs = v1 # vs'"
        using a v1 sk by auto
      have "length cs - length r \<le> m'" using m m' c1 lcs by simp
      then have "parse_elements m' cs = Some (vs', r)" using Suc p by blast
      then show ?thesis using True pv sk vs m' by simp
    next
      case False
      then have "Some (vs, r) = (if c = CHR '']'' then Some ([v1], cs) else None)"
        using a v1 sk by simp
      then show ?thesis using False pv sk m' by simp
    qed
  qed
  have M: "parse_members m s = Some (ms, r)"
    if a: "parse_members (Suc n) s = Some (ms, r)" and m: "length s - length r \<le> m" for m
  proof -
    obtain q s1 where sk1: "skipSpace s = q # s1"
      using a by (cases "skipSpace s") auto
    have q: "q = CHR 0x22" using a sk1 by (auto split: if_splits)
    obtain k s2 where k: "parse_chars s1 = Some (k, s2)"
      using a sk1 q by (auto split: option.splits)
    obtain colon s3 where sk2: "skipSpace s2 = colon # s3"
      using a sk1 q k by (cases "skipSpace s2") auto
    have colon: "colon = CHR '':''" using a sk1 q k sk2 by (auto split: if_splits)
    obtain v1 r1 where v1: "parse_value n s3 = Some (v1, r1)"
      using a sk1 q k sk2 colon by (auto split: option.splits)
    obtain c cs where sk3: "skipSpace r1 = c # cs"
      using a sk1 q k sk2 colon v1 by (cases "skipSpace r1") auto
    have l1: "length s1 < length s" by (rule skip_len[OF sk1])
    have l2: "length s2 < length s1" using k parse_chars_consumes consumes_length by blast
    have l3: "length s3 < length s2" by (rule skip_len[OF sk2])
    have l4: "length r1 < length s3" using v1 parse_consumes consumes_length by blast
    have l5: "length cs < length r1" by (rule skip_len[OF sk3])
    have rcs: "length r \<le> length cs"
    proof (cases "c = CHR '',''")
      case True
      then obtain ms' where "parse_members n cs = Some (ms', r)"
        using a sk1 q k sk2 colon v1 sk3 by auto
      then show ?thesis using parse_consumes consumes_length less_imp_le by blast
    next
      case False
      then show ?thesis using a sk1 q k sk2 colon v1 sk3 by (auto split: if_splits)
    qed
    have "0 < m" using m l1 l2 l3 l4 l5 rcs by simp
    then obtain m' where m': "m = Suc m'" by (cases m) auto
    have "length s3 - length r1 \<le> m'" using m m' l1 l2 l3 l4 l5 rcs by simp
    then have pv: "parse_value m' s3 = Some (v1, r1)" using Suc v1 by blast
    show ?thesis
    proof (cases "c = CHR '',''")
      case True
      then obtain ms' where p: "parse_members n cs = Some (ms', r)" and mse: "ms = (k, v1) # ms'"
        using a sk1 q k sk2 colon v1 sk3 by auto
      have "length cs - length r \<le> m'" using m m' l1 l2 l3 l4 l5 by simp
      then have "parse_members m' cs = Some (ms', r)" using Suc p by blast
      then show ?thesis using True pv sk1 q k sk2 colon sk3 mse m' by simp
    next
      case False
      then have "Some (ms, r) = (if c = CHR ''}'' then Some ([(k, v1)], cs) else None)"
        using a sk1 q k sk2 colon v1 sk3 by simp
      then show ?thesis using False pv sk1 q k sk2 colon sk3 m' by simp
    qed
  qed
  from V E M show ?case by blast
qed

lemma JSON_parse_fuel:
  "JSON_parse t = Some v \<longleftrightarrow> (\<exists>n r. parse_value n t = Some (v, r) \<and> skipSpace r = [])"
proof
  assume "JSON_parse t = Some v"
  then obtain r where "parse_value (2 * length t + 2) t = Some (v, r)" and "skipSpace r = []"
    by (auto simp: JSON_parse_def split: option.splits if_splits)
  then show "\<exists>n r. parse_value n t = Some (v, r) \<and> skipSpace r = []"
    by blast
next
  assume "\<exists>n r. parse_value n t = Some (v, r) \<and> skipSpace r = []"
  then obtain n r where p: "parse_value n t = Some (v, r)" and sk: "skipSpace r = []" by blast
  have "length t - length r \<le> 2 * length t + 2" by simp
  then have "parse_value (2 * length t + 2) t = Some (v, r)" using p parse_fuel by blast
  then show "JSON_parse t = Some v" using sk by (simp add: JSON_parse_def)
qed

subsection \<open>The fence markers\<close>

lemma stripLeadingFence_fenced:
  assumes "j \<noteq> []" and "\<not> isSpace (hd j)" and "\<forall>c\<in>set w1. isSpace c"
  shows "stripLeadingFence (''```json'' @ w1 @ j @ rest) = j @ rest"
proof -
  have "dropWhile isSpace (w1 @ j @ rest) = dropWhile isSpace (j @ rest)"
    using assms(3) by (simp add: dropWhile_append2)
  also have "\<dots> = j @ rest"
    using assms(1,2) by (cases j) auto
  finally show ?thesis
    by (simp add: stripLeadingFence_def startsWith_def)
qed

lemma stripTrailingFence_fenced:
  assumes "j \<noteq> []" and "\<not> isSpace (last j)" and "\<forall>c\<in>set w2. isSpace c"
  shows "stripTrailingFence (j @ w2 @ ''```'') = j"
proof -
  have e: "endsWith (j @ w2 @ ''```'') ''```''"
    by (simp add: endsWith_def)
  have t: "take (length (j @ w2 @ ''```'') - 3) (j @ w2 @ ''```'') = j @ w2"
    by simp
  have "\<forall>c\<in>set (rev w2). isSpace c" using assms(3) by simp
  then have "dropWhile isSpace (rev w2 @ rev j) = dropWhile isSpace (rev j)"
    by (simp add: dropWhile_append2 del: set_rev)
  also have "\<dots> = rev j"
    using assms(1,2) by (cases j rule: rev_cases) auto
  finally have "rev (dropWhile isSpace (rev (j @ w2))) = j" by simp
  then show ?thesis
    unfolding stripTrailingFence_def using e t by (simp only: if_True)
qed

lemma parse_value_Nil: "parse_value n [] = None"
  by (cases n) (simp_all add: skipSpace_def)

lemma JSON_parse_Nil: "JSON_parse [] = None"
  by (simp add: JSON_parse_def parse_value_Nil)

lemma JSON_parse_backquote: "JSON_parse (CHR 0x60 # cs) = None"
  by (simp add: JSON_parse_def parse_value_backquote)

lemma JSON_parse_hd:
  assumes "JSON_parse j = Some v"
  shows "j \<noteq> [] \<and> hd j \<noteq> CHR 0x60"
proof (cases j)
  case Nil
  then show ?thesis using assms JSON_parse_Nil by simp
next
  case (Cons c cs)
  then show ?thesis using assms JSON_parse_backquote by auto
qed

lemma stripLeadingFence_cases:
  "(startsWith t ''```json'' \<longrightarrow>
      (\<exists>w. (\<forall>c\<in>set w. isSpace c) \<and> t = ''```json'' @ w @ stripLeadingFence t \<and>
           (stripLeadingFence t = [] \<or> \<not> isSpace (hd (stripLeadingFence t)))))
   \<and> (\<not> startsWith t ''```json'' \<longrightarrow> stripLeadingFence t = t)"
proof (intro conjI impI)
  assume s: "startsWith t ''```json''"
  let ?b = "drop 7 t"
  obtain q where q: "t = ''```json'' @ q" using s startsWith_iff by blast
  have "drop 7 t = q" by (subst q) simp
  then have t: "t = ''```json'' @ ?b" using q by simp
  have sl: "stripLeadingFence t = dropWhile isSpace ?b"
    using s by (simp add: stripLeadingFence_def)
  have "?b = takeWhile isSpace ?b @ dropWhile isSpace ?b" by simp
  then have "t = ''```json'' @ takeWhile isSpace ?b @ stripLeadingFence t"
    using t sl by metis
  moreover have "\<forall>c\<in>set (takeWhile isSpace ?b). isSpace c"
    by (auto dest: set_takeWhileD)
  moreover have "stripLeadingFence t = [] \<or> \<not> isSpace (hd (stripLeadingFence t))"
    unfolding sl using hd_dropWhile[of isSpace ?b] by blast
  ultimately show "\<exists>w. (\<forall>c\<in>set w. isSpace c) \<and> t = ''```json'' @ w @ stripLeadingFence t \<and>
           (stripLeadingFence t = [] \<or> \<not> isSpace (hd (stripLeadingFence t)))"
    by blast
next
  assume "\<not> startsWith t ''```json''"
  then show "stripLeadingFence t = t" by (simp add: stripLeadingFence_def)
qed

lemma stripTrailingFence_cases:
  "(endsWith t ''```'' \<longrightarrow>
      (\<exists>w. (\<forall>c\<in>set w. isSpace c) \<and> t = stripTrailingFence t @ w @ ''```'' \<and>
           (stripTrailingFence t = [] \<or> \<not> isSpace (last (stripTrailingFence t)))))
   \<and> (\<not> endsWith t ''```'' \<longrightarrow> stripTrailingFence t = t)"
proof (intro conjI impI)
  assume e: "endsWith t ''```''"
  let ?b = "take (length t - 3) t"
  have t: "t = ?b @ ''```''"
    using e by (metis append_take_drop_id endsWith_def length_Cons list.size(3) numeral_3_eq_3)
  have st: "stripTrailingFence t = rev (dropWhile isSpace (rev ?b))"
    using e by (simp add: stripTrailingFence_def)
  let ?w = "rev (takeWhile isSpace (rev ?b))"
  have "rev ?b = takeWhile isSpace (rev ?b) @ dropWhile isSpace (rev ?b)" by simp
  then have "?b = stripTrailingFence t @ ?w"
    unfolding st by (metis rev_append rev_rev_ident)
  then have "t = stripTrailingFence t @ ?w @ ''```''"
    using t by (metis append_assoc)
  moreover have "\<forall>c\<in>set ?w. isSpace c"
    by (auto dest: set_takeWhileD)
  moreover have "stripTrailingFence t = [] \<or> \<not> isSpace (last (stripTrailingFence t))"
  proof (cases "dropWhile isSpace (rev ?b)")
    case Nil
    then show ?thesis unfolding st by simp
  next
    case (Cons c cs)
    then have "\<not> isSpace c" using hd_dropWhile[of isSpace "rev ?b"] by auto
    then show ?thesis unfolding st Cons by simp
  qed
  ultimately show "\<exists>w. (\<forall>c\<in>set w. isSpace c) \<and> t = stripTrailingFence t @ w @ ''```'' \<and>
           (stripTrailingFence t = [] \<or> \<not> isSpace (last (stripTrailingFence t)))"
    by blast
next
  assume "\<not> endsWith t ''```''"
  then show "stripTrailingFence t = t" by (simp add: stripTrailingFence_def)
qed

lemma stripTrailingFence_prefix: "\<exists>r. t = stripTrailingFence t @ r"
  using stripTrailingFence_cases[of t] by (metis append_Nil2)

lemma cleanAndParseJson_Some:
  "cleanAndParseJson (Some t) =
     (case JSON_parse (stripTrailingFence (stripLeadingFence t)) of
        Some v \<Rightarrow> ([], Inr v)
      | None \<Rightarrow> ([ConsoleError (Some t)], Inl parseFailure))"
  by (simp add: cleanAndParseJson_def)

lemma cleanAndParseJson_other_fence:
  assumes "t \<noteq> []" and "hd t = CHR 0x60" and "\<not> startsWith t ''```json''"
  shows "cleanAndParseJson (Some t) = ([ConsoleError (Some t)], Inl parseFailure)"
proof -
  have l: "stripLeadingFence t = t" using assms(3) by (simp add: stripLeadingFence_def)
  obtain r where r: "t = stripTrailingFence t @ r" using stripTrailingFence_prefix by blast
  have "JSON_parse (stripTrailingFence t) = None"
  proof (cases "stripTrailingFence t")
    case Nil
    then show ?thesis by (simp add: JSON_parse_Nil)
  next
    case (Cons c cs)
    then have "hd t = c" using r by (metis append_Cons list.sel(1))
    then have "c = CHR 0x60" using assms(2) by simp
    then show ?thesis unfolding Cons by (simp only: JSON_parse_backquote)
  qed
  then show ?thesis by (simp add: cleanAndParseJson_Some l)
qed

lemma cleanAndParseJson_leading_only:
  assumes "JSON_parse j = Some v" and "\<not> isSpace (hd j)" and "\<forall>c\<in>set w1. isSpace c"
  shows "cleanAndParseJson (Some (''```json'' @ w1 @ j)) = ([], Inr v)"
proof -
  have j: "j \<noteq> []" using JSON_parse_hd[OF assms(1)] by simp
  have "stripLeadingFence (''```json'' @ w1 @ j @ []) = j @ []"
    by (rule stripLeadingFence_fenced[OF j assms(2,3)])
  then have "stripLeadingFence (''```json'' @ w1 @ j) = j" by simp
  moreover have "stripTrailingFence j = j" 
    using JSON_parse_no_fence[OF assms(1)] by (simp add: stripTrailingFence_def)
  ultimately show ?thesis using assms(1) by (simp add: cleanAndParseJson_Some)
qed

lemma cleanAndParseJson_trailing_only:
  assumes "JSON_parse j = Some v" and "\<not> isSpace (last j)" and "\<forall>c\<in>set w2. isSpace c"
  shows "cleanAndParseJson (Some (j @ w2 @ ''```'')) = ([], Inr v)"
proof -
  have j: "j \<noteq> []" and h: "hd j \<noteq> CHR 0x60" using JSON_parse_hd[OF assms(1)] by simp_all
  have "\<not> startsWith (j @ w2 @ ''```'') ''```json''"
  proof
    assume "startsWith (j @ w2 @ ''```'') ''```json''"
    then obtain q where "j @ w2 @ ''```'' = ''```json'' @ q" using startsWith_iff by blast
    then have "hd (j @ w2 @ ''```'') = CHR 0x60" by simp
    then show False using j h by simp
  qed
  then have "stripLeadingFence (j @ w2 @ ''```'') = j @ w2 @ ''```''"
    by (simp add: stripLeadingFence_def)
  moreover have "stripTrailingFence (j @ w2 @ ''```'') = j"
    by (rule stripTrailingFence_fenced[OF j assms(2,3)])
  ultimately show ?thesis using assms(1) by (simp add: cleanAndParseJson_Some)
qed

text \<open>
  Against claim C6 as stated: the language tag of the leading marker is not optional. The
  valid document \<open>{"a":1}\<close> inside a fence without a tag, or with the tag \<open>JSON\<close>, is
  not parsed: the leading marker stays, and the normalizer throws.
\<close>

theorem cleanAndParseJson_bare_fence:
  "JSON_parse ''{\"a\":1}'' = Some (JObject [(''a'', JNumber ''1'')])
   \<and> cleanAndParseJson (Some (''```'' @ [CHR 0x0A] @ ''{\"a\":1}'' @ [CHR 0x0A] @ ''```''))
       = ([ConsoleError (Some (''```'' @ [CHR 0x0A] @ ''{\"a\":1}'' @ [CHR 0x0A] @ ''```''))],
          Inl parseFailure)
   \<and> cleanAndParseJson (Some (''```JSON'' @ [CHR 0x0A] @ ''{\"a\":1}'' @ [CHR 0x0A] @ ''```''))
       = ([ConsoleError (Some (''```JSON'' @ [CHR 0x0A] @ ''{\"a\":1}'' @ [CHR 0x0A] @ ''```''))],
          Inl parseFailure)"
  by code_simp

text \<open>
  Claim C6, amended. The result on a reply \<open>t\<close> is decided by \<^verbatim>\<open>JSON.parse\<close> of \<open>t\<close> after
  the two replacements: its value is returned, and when there is none the reply is logged
  and the fixed error thrown. The first replacement acts exactly when the reply starts
  with the marker \<^verbatim>\<open>```json\<close>, and removes the marker and all whitespace after it; the
  second acts exactly when the text ends with \<^verbatim>\<open>```\<close>, and removes that marker and all
  whitespace before it. So for a valid JSON document \<open>j\<close> the parsed structure of \<open>j\<close> is
  returned for \<open>j\<close> as it stands, for \<open>j\<close> after the leading marker and whitespace only
  (\<open>j\<close> not starting with whitespace), for \<open>j\<close> before whitespace and the trailing marker
  only (\<open>j\<close> not ending with whitespace), and for \<open>j\<close> between both. Every reply that
  starts with a backquote but not with \<^verbatim>\<open>```json\<close>, such as a fence without a tag or with
  another tag, is logged and rejected with the fixed error. The fenced and the unfenced
  \<open>{"a":1}\<close> both give the object with the one member \<open>a\<close> of value 1.
\<close>

theorem cleanAndParseJson_json_fence:
  "cleanAndParseJson (Some t) =
     (case JSON_parse (stripTrailingFence (stripLeadingFence t)) of
        Some v \<Rightarrow> ([], Inr v)
      | None \<Rightarrow> ([ConsoleError (Some t)], Inl parseFailure))
   \<and> (startsWith t ''```json'' \<longrightarrow>
        (\<exists>w. (\<forall>c\<in>set w. isSpace c) \<and> t = ''```json'' @ w @ stripLeadingFence t \<and>
             (stripLeadingFence t = [] \<or> \<not> isSpace (hd (stripLeadingFence t)))))
   \<and> (\<not> startsWith t ''```json'' \<longrightarrow> stripLeadingFence t = t)
   \<and> (endsWith t ''```'' \<longrightarrow>
        (\<exists>w. (\<forall>c\<in>set w. isSpace c) \<and> t = stripTrailingFence t @ w @ ''```'' \<and>
             (stripTrailingFence t = [] \<or> \<not> isSpace (last (stripTrailingFence t)))))
   \<and> (\<not> endsWith t ''```'' \<longrightarrow> stripTrailingFence t = t)
   \<and> (j \<noteq> [] \<and> \<not> isSpace (hd j) \<and> \<not> isSpace (last j) \<and>
      (\<forall>c\<in>set w1. isSpace c) \<and> (\<forall>c\<in>set w2. isSpace c) \<longrightarrow>
      stripTrailingFence (stripLeadingFence (''```json'' @ w1 @ j @ w2 @ ''```'')) = j \<and>
      (\<forall>v. JSON_parse j = Some v \<longrightarrow>
         cleanAndParseJson (Some (''```json'' @ w1 @ j @ w2 @ ''```'')) = ([], Inr v)))
   \<and> (\<forall>v. JSON_parse j = Some v \<and> \<not> isSpace (hd j) \<and> (\<forall>c\<in>set w1. isSpace c) \<longrightarrow>
         cleanAndParseJson (Some (''```json'' @ w1 @ j)) = ([], Inr v))
   \<and> (\<forall>v. JSON_parse j = Some v \<and> \<not> isSpace (last j) \<and> (\<forall>c\<in>set w2. isSpace c) \<longrightarrow>
         cleanAndParseJson (Some (j @ w2 @ ''```'')) = ([], Inr v))
   \<and> (\<forall>v. JSON_parse t = Some v \<longrightarrow>
        stripTrailingFence (stripLeadingFence t) = t \<and> cleanAndParseJson (Some t) = ([], Inr v))
   \<and> (t \<noteq> [] \<and> hd t = CHR 0x60 \<and> \<not> startsWith t ''```json'' \<longrightarrow>
        cleanAndParseJson (Some t) = ([ConsoleError (Some t)], Inl parseFailure))
   \<and> cleanAndParseJson (Some (''```json'' @ [CHR 0x0A] @ ''{\"a\":1}'' @ [CHR 0x0A] @ ''```''))
       = ([], Inr (JObject [(''a'', JNumber ''1'')]))
   \<and> cleanAndParseJson (Some ''{\"a\":1}'') = ([], Inr (JObject [(''a'', JNumber ''1'')]))"
proof -
  have A: "cleanAndParseJson (Some t) =
     (case JSON_parse (stripTrailingFence (stripLeadingFence t)) of
        Some v \<Rightarrow> ([], Inr v)
      | None \<Rightarrow> ([ConsoleError (Some t)], Inl parseFailure))"
    by (rule cleanAndParseJson_Some)
  note B1 = stripLeadingFence_cases[of t, THEN conjunct1]
  note B2 = stripLeadingFence_cases[of t, THEN conjunct2]
  note B3 = stripTrailingFence_cases[of t, THEN conjunct1]
  note B4 = stripTrailingFence_cases[of t, THEN conjunct2]
  have C1: "j \<noteq> [] \<and> \<not> isSpace (hd j) \<and> \<not> isSpace (last j) \<and>
      (\<forall>c\<in>set w1. isSpace c) \<and> (\<forall>c\<in>set w2. isSpace c) \<longrightarrow>
      stripTrailingFence (stripLeadingFence (''```json'' @ w1 @ j @ w2 @ ''```'')) = j \<and>
      (\<forall>v. JSON_parse j = Some v \<longrightarrow>
         cleanAndParseJson (Some (''```json'' @ w1 @ j @ w2 @ ''```'')) = ([], Inr v))"
  proof (intro impI conjI)
    assume a: "j \<noteq> [] \<and> \<not> isSpace (hd j) \<and> \<not> isSpace (last j) \<and>
      (\<forall>c\<in>set w1. isSpace c) \<and> (\<forall>c\<in>set w2. isSpace c)"
    have "stripLeadingFence (''```json'' @ w1 @ j @ w2 @ ''```'') = j @ w2 @ ''```''"
      using a by (intro stripLeadingFence_fenced) auto
    moreover have "stripTrailingFence (j @ w2 @ ''```'') = j"
      using a by (intro stripTrailingFence_fenced) auto
    ultimately show s: "stripTrailingFence (stripLeadingFence (''```json'' @ w1 @ j @ w2 @ ''```'')) = j"
      by simp
    show "\<forall>v. JSON_parse j = Some v \<longrightarrow>
         cleanAndParseJson (Some (''```json'' @ w1 @ j @ w2 @ ''```'')) = ([], Inr v)"
      unfolding cleanAndParseJson_def by (simp only: option.case Let_def s) simp
  qed
  have C2: "\<forall>v. JSON_parse j = Some v \<and> \<not> isSpace (hd j) \<and> (\<forall>c\<in>set w1. isSpace c) \<longrightarrow>
         cleanAndParseJson (Some (''```json'' @ w1 @ j)) = ([], Inr v)"
    using cleanAndParseJson_leading_only by blast
  have C3: "\<forall>v. JSON_parse j = Some v \<and> \<not> isSpace (last j) \<and> (\<forall>c\<in>set w2. isSpace c) \<longrightarrow>
         cleanAndParseJson (Some (j @ w2 @ ''```'')) = ([], Inr v)"
    using cleanAndParseJson_trailing_only by blast
  have C4: "\<forall>v. JSON_parse t = Some v \<longrightarrow>
        stripTrailingFence (stripLeadingFence t) = t \<and> cleanAndParseJson (Some t) = ([], Inr v)"
    using cleanAndParseJson_valid by blast
  have D: "t \<noteq> [] \<and> hd t = CHR 0x60 \<and> \<not> startsWith t ''```json'' \<longrightarrow>
        cleanAndParseJson (Some t) = ([ConsoleError (Some t)], Inl parseFailure)"
    using cleanAndParseJson_other_fence by blast
  have E1: "cleanAndParseJson (Some (''```json'' @ [CHR 0x0A] @ ''{\"a\":1}'' @ [CHR 0x0A] @ ''```''))
       = ([], Inr (JObject [(''a'', JNumber ''1'')]))"
    by code_simp
  have E2: "cleanAndParseJson (Some ''{\"a\":1}'') = ([], Inr (JObject [(''a'', JNumber ''1'')]))"
    by code_simp
  show ?thesis
    by (rule conjI[OF A conjI[OF B1 conjI[OF B2 conjI[OF B3 conjI[OF B4 conjI[OF C1
         conjI[OF C2 conjI[OF C3 conjI[OF C4 conjI[OF D conjI[OF E1 E2]]]]]]]]]]])
qed

theorem cleanAndParseJson_json_fence_witness:
  "cleanAndParseJson (Some (''```json'' @ [CHR 0x0A, CHR '' ''] @ ''[true]'' @ [CHR 0x0A] @ ''```''))
     = ([], Inr (JArray [JBool True]))
   \<and> cleanAndParseJson (Some (''```json'' @ [CHR 0x0A, CHR '' ''] @ ''[true]''))
     = ([], Inr (JArray [JBool True]))
   \<and> cleanAndParseJson (Some (''[true]'' @ [CHR 0x0A] @ ''```''))
     = ([], Inr (JArray [JBool True]))
   \<and> cleanAndParseJson (Some ''  [true] '') = ([], Inr (JArray [JBool True]))
   \<and> cleanAndParseJson (Some ''```javascript [true]'')
     = ([ConsoleError (Some ''```javascript [true]'')], Inl parseFailure)
   \<and> stripLeadingFence ''  [true] '' = ''  [true] ''
   \<and> stripTrailingFence ''  [true] '' = ''  [true] ''"
proof -
  have p: "JSON_parse ''[true]'' = Some (JArray [JBool True])"
    "JSON_parse ''  [true] '' = Some (JArray [JBool True])"
    by code_simp+
  have h: "''[true]'' \<noteq> [] \<and> \<not> isSpace (hd ''[true]'') \<and> \<not> isSpace (last ''[true]'') \<and>
      (\<forall>c\<in>set [CHR 0x0A, CHR '' '']. isSpace c) \<and> (\<forall>c\<in>set [CHR 0x0A]. isSpace c)"
    by (simp add: isSpace_def)
  have h1: "JSON_parse ''[true]'' = Some (JArray [JBool True]) \<and> \<not> isSpace (hd ''[true]'') \<and>
      (\<forall>c\<in>set [CHR 0x0A, CHR '' '']. isSpace c)"
    using p(1) h by blast
  have h2: "JSON_parse ''[true]'' = Some (JArray [JBool True]) \<and> \<not> isSpace (last ''[true]'') \<and>
      (\<forall>c\<in>set [CHR 0x0A]. isSpace c)"
    using p(1) h by blast
  have h3: "''```javascript [true]'' \<noteq> [] \<and> hd ''```javascript [true]'' = CHR 0x60 \<and>
      \<not> startsWith ''```javascript [true]'' ''```json''"
    by (simp add: startsWith_def)
  have h4: "\<not> startsWith ''  [true] '' ''```json''" by (simp add: startsWith_def)
  have h5: "\<not> endsWith ''  [true] '' ''```''" by (simp add: endsWith_def)
  note T = cleanAndParseJson_json_fence[of _ "''[true]''" "[CHR 0x0A, CHR '' '']" "[CHR 0x0A]"]
  note T1 = T[of "''  [true] ''"]
  note T2 = T[of "''```javascript [true]''"]
  note R = T1[THEN conjunct2]
  note R2 = R[THEN conjunct2]
  note R3 = R2[THEN conjunct2]
  note R4 = R3[THEN conjunct2]
  note R5 = R4[THEN conjunct2]
  note R6 = R5[THEN conjunct2]
  note R7 = R6[THEN conjunct2]
  note R8 = R7[THEN conjunct2]
  have a: "cleanAndParseJson (Some (''```json'' @ [CHR 0x0A, CHR '' ''] @ ''[true]'' @ [CHR 0x0A] @ ''```''))
     = ([], Inr (JArray [JBool True]))"
    using R5[THEN conjunct1, rule_format, OF h, THEN conjunct2, rule_format, OF p(1)] .
  have b: "cleanAndParseJson (Some (''```json'' @ [CHR 0x0A, CHR '' ''] @ ''[true]''))
     = ([], Inr (JArray [JBool True]))"
    using R6[THEN conjunct1, rule_format, OF h1] .
  have c: "cleanAndParseJson (Some (''[true]'' @ [CHR 0x0A] @ ''```''))
     = ([], Inr (JArray [JBool True]))"
    using R7[THEN conjunct1, rule_format, OF h2] .
  have d: "cleanAndParseJson (Some ''  [true] '') = ([], Inr (JArray [JBool True]))"
    using R8[THEN conjunct1, rule_format, OF p(2), THEN conjunct2] .
  have e: "cleanAndParseJson (Some ''```javascript [true]'')
     = ([ConsoleError (Some ''```javascript [true]'')], Inl parseFailure)"
    using T2[THEN conjunct2, THEN conjunct2, THEN conjunct2, THEN conjunct2, THEN conjunct2,
             THEN conjunct2, THEN conjunct2, THEN conjunct2, THEN conjunct2, THEN conjunct1,
             rule_format, OF h3] .
  have f: "stripLeadingFence ''  [true] '' = ''  [true] ''"
    using R2[THEN conjunct1, rule_format, OF h4] .
  have g: "stripTrailingFence ''  [true] '' = ''  [true] ''"
    using R4[THEN conjunct1, rule_format, OF h5] .
  show ?thesis
    by (rule conjI[OF a conjI[OF b conjI[OF c conjI[OF d conjI[OF e conjI[OF f g]]]]]])
qed

text \<open>
  Against claim C7 as stated: the error thrown for the reply \<open>not json\<close> is an
  \<^verbatim>\<open>Error\<close> with a fixed message, which does not contain the reply; the reply goes to
  \<^verbatim>\<open>console.error\<close> only. Another malformed reply throws the same error. And a reply
  that is valid JSON of an unexpected shape, such as \<open>[1,2]\<close>, is returned as parsed.
\<close>

theorem cleanAndParseJson_error_has_no_text:
  "cleanAndParseJson (Some ''not json'')
     = ([ConsoleError (Some ''not json'')],
        Inl (Error (Some ''Failed to parse AI response. Ensure content is valid JSON.'')))
   \<and> \<not> includes_js ''Failed to parse AI response. Ensure content is valid JSON.'' ''not json''
   \<and> snd (cleanAndParseJson (Some ''{oops'')) = snd (cleanAndParseJson (Some ''not json''))
   \<and> cleanAndParseJson (Some ''[1,2]'') = ([], Inr (JArray [JNumber ''1'', JNumber ''2'']))"
  by code_simp

text \<open>
  Claim C7, amended. When the reply, after the two replacements, is not valid JSON, or
  when the reply is \<^verbatim>\<open>undefined\<close>, the normalizer writes the reply to
  \<^verbatim>\<open>console.error\<close> and throws an error with the fixed message
  \<open>Failed to parse AI response. Ensure content is valid JSON.\<close>; it throws no other
  error. Nothing is recovered: a structure that it returns is what \<^verbatim>\<open>JSON.parse\<close>
  gives for the whole stripped reply.
\<close>

theorem cleanAndParseJson_failure:
  "(JSON_parse (stripTrailingFence (stripLeadingFence t)) = None \<longrightarrow>
      cleanAndParseJson (Some t) = ([ConsoleError (Some t)], Inl parseFailure))
   \<and> cleanAndParseJson None = ([ConsoleError None], Inl parseFailure)
   \<and> message parseFailure = Some ''Failed to parse AI response. Ensure content is valid JSON.''
   \<and> (\<forall>v. snd (cleanAndParseJson reply) = Inr v \<longrightarrow>
         (\<exists>t'. reply = Some t' \<and> JSON_parse (stripTrailingFence (stripLeadingFence t')) = Some v))
   \<and> (\<forall>e. snd (cleanAndParseJson reply) = Inl e \<longrightarrow> e = parseFailure)"
proof (intro conjI impI allI)
  assume "JSON_parse (stripTrailingFence (stripLeadingFence t)) = None"
  then show "cleanAndParseJson (Some t) = ([ConsoleError (Some t)], Inl parseFailure)"
    by (simp add: cleanAndParseJson_def)
next
  show "cleanAndParseJson None = ([ConsoleError None], Inl parseFailure)"
    by (simp add: cleanAndParseJson_def)
next
  show "message parseFailure = Some ''Failed to parse AI response. Ensure content is valid JSON.''"
    by (simp add: parseFailure_def)
next
  fix v assume "snd (cleanAndParseJson reply) = Inr v"
  then show "\<exists>t'. reply = Some t' \<and> JSON_parse (stripTrailingFence (stripLeadingFence t')) = Some v"
    by (cases reply) (auto simp: cleanAndParseJson_def split: option.splits)
next
  fix e assume "snd (cleanAndParseJson reply) = Inl e"
  then show "e = parseFailure"
    by (cases reply) (auto simp: cleanAndParseJson_def split: option.splits)
qed

theorem cleanAndParseJson_failure_witness:
  "cleanAndParseJson (Some ''not json'') = ([ConsoleError (Some ''not json'')], Inl parseFailure)
   \<and> JSON_parse (stripTrailingFence (stripLeadingFence ''[1,2]'')) = Some (JArray [JNumber ''1'', JNumber ''2''])"
proof -
  have n: "JSON_parse (stripTrailingFence (stripLeadingFence ''not json'')) = None"
    by code_simp
  have r: "snd (cleanAndParseJson (Some ''[1,2]'')) = Inr (JArray [JNumber ''1'', JNumber ''2''])"
    by code_simp
  have a: "cleanAndParseJson (Some ''not json'') = ([ConsoleError (Some ''not json'')], Inl parseFailure)"
    using cleanAndParseJson_failure[of "''not json''", THEN conjunct1, rule_format, OF n] .
  have b: "JSON_parse (stripTrailingFence (stripLeadingFence ''[1,2]'')) = Some (JArray [JNumber ''1'', JNumber ''2''])"
    using cleanAndParseJson_failure[of _ "Some ''[1,2]''", THEN conjunct2, THEN conjunct2, THEN conjunct2,
        THEN conjunct1, rule_format, OF r]
    by simp
  from a b show ?thesis by (rule conjI)
qed


section \<open>Facts about getWordDefinition\<close>

lemma fetches_append: "fetches (xs @ ys) = fetches xs + fetches ys"
  by (simp add: fetches_def)

lemma fetches_withRetry_loop: "fetches (fst (withRetry_loop fn retries i d l)) = 0"
proof (induction fn retries i d l rule: withRetry_loop.induct)
  case (1 fn retries i delayMs lastError)
  show ?case
  proof (cases "fn i")
    case (Pair evs r)
    show ?thesis
    proof (cases r)
      case (Inr v)
      with Pair show ?thesis
        by (simp add: withRetry_loop.simps[of fn retries i] fetches_def)
    next
      case (Inl err)
      show ?thesis
      proof (cases "i < retries \<and> isInternalError err \<and> i < retries - 1")
        case True
        then have IH: "fetches (fst (withRetry_loop fn retries (i + 1) (delayMs * backoffMultiplier) (Some err))) = 0"
          using 1[OF _ Pair[symmetric] Inl] by simp
        obtain rest r' where rec:
          "withRetry_loop fn retries (i + 1) (delayMs * backoffMultiplier) (Some err) = (rest, r')"
          by (cases "withRetry_loop fn retries (i + 1) (delayMs * backoffMultiplier) (Some err)")
        then have "fetches rest = 0" using IH by simp
        then show ?thesis
          using True Pair Inl rec
          by (simp add: withRetry_loop.simps[of fn retries i] fetches_def)
      next
        case False
        then show ?thesis
          using Pair Inl by (auto simp: withRetry_loop.simps[of fn retries i] fetches_def)
      qed
    qed
  qed
qed

lemma fetches_withRetry_default: "fetches (fst (withRetry_default fn)) = 0"
  by (simp add: withRetry_default_def withRetry_def fetches_withRetry_loop)

lemma fetches_cleanAndParseJson: "fetches (fst (cleanAndParseJson reply)) = 0"
  by (cases reply) (auto simp: cleanAndParseJson_def fetches_def split: option.splits)

lemma fetches_fallbackAttempt:
  assumes "isSet (DEEPSEEK_API_KEY e)"
  shows "fetches (fst (fallbackAttempt e response prompt)) = 1
       \<and> DeepSeekFetch ''You are an English dictionary API. Output purely JSON.'' prompt
            \<in> set (fst (fallbackAttempt e response prompt))"
proof (cases response)
  case (Rejected err)
  with assms show ?thesis
    by (simp add: fallbackAttempt_def callDeepSeek_def fetches_def)
next
  case (Response ok statusText content)
  show ?thesis
  proof (cases "ok")
    case False
    with assms Response show ?thesis
      by (simp add: fallbackAttempt_def callDeepSeek_def fetches_def)
  next
    case True
    show ?thesis
    proof (cases content)
      case (Inl err)
      with assms Response True show ?thesis
        by (simp add: fallbackAttempt_def callDeepSeek_def fetches_def)
    next
      case (Inr responseText)
      obtain tr' r where c: "cleanAndParseJson responseText = (tr', r)"
        by (cases "cleanAndParseJson responseText")
      then have "fetches tr' = 0" using fetches_cleanAndParseJson[of responseText] by simp
      with assms Response True Inr c show ?thesis
        by (simp add: fallbackAttempt_def callDeepSeek_def fetches_def)
    qed
  qed
qed

lemma getWordDefinition_primary_ok:
  assumes "withRetry_default (primaryAttempt e generateContent) = (tr, Inr v)"
  shows "getWordDefinition e generateContent response word ctx = (tr, Inr v)"
  using assms by (simp add: getWordDefinition_def)

lemma getWordDefinition_fallback_run:
  assumes "withRetry_default (primaryAttempt e generateContent) = (tr, Inl geminiError)"
    and "isSet (DEEPSEEK_API_KEY e)"
  shows "getWordDefinition e generateContent response word ctx =
           (tr @ fst (fallbackAttempt e response (definePrompt word ctx)),
            map_sum Some id (snd (fallbackAttempt e response (definePrompt word ctx))))"
proof -
  obtain tr' r where f: "fallbackAttempt e response (definePrompt word ctx) = (tr', r)"
    by (cases "fallbackAttempt e response (definePrompt word ctx)")
  show ?thesis
    using assms f by (cases r) (simp_all add: getWordDefinition_def)
qed

lemma getWordDefinition_no_fallback:
  assumes "withRetry_default (primaryAttempt e generateContent) = (tr, Inl geminiError)"
    and "\<not> isSet (DEEPSEEK_API_KEY e)"
  shows "getWordDefinition e generateContent response word ctx = (tr, Inl geminiError)"
  using assms by (simp add: getWordDefinition_def)

text \<open>
  Claim C1. When the retried primary attempt fails and a fallback credential is set, the
  secondary provider is asked exactly once, with the same prompt. What the caller gets is
  decided by the reply: a rejected request, a response that is not \<open>ok\<close>, or a body
  whose content cannot be read, throws the secondary's error; a content is handed to
  \<open>cleanAndParseJson\<close>, whose parsed structure is returned and whose error is thrown.
  When the primary fails and no fallback credential is set, the caller gets the primary's
  error and the secondary provider is not asked. When the primary succeeds its result is
  returned. Every call ends in exactly one of the three outcomes: success, primary failed
  without fallback, fallback failed. A credential is set when it is present and not the
  empty string.
\<close>

theorem getWordDefinition_fallback:
  "(withRetry_default (primaryAttempt e generateContent) = (tr, Inl geminiError) \<and>
      isSet (DEEPSEEK_API_KEY e) \<longrightarrow>
      fetches (fst (getWordDefinition e generateContent response word ctx)) = 1
      \<and> DeepSeekFetch ''You are an English dictionary API. Output purely JSON.'' (definePrompt word ctx)
           \<in> set (fst (getWordDefinition e generateContent response word ctx))
      \<and> (\<forall>v. snd (fallbackAttempt e response (definePrompt word ctx)) = Inr v \<longrightarrow>
             snd (getWordDefinition e generateContent response word ctx) = Inr v)
      \<and> (\<forall>err. snd (fallbackAttempt e response (definePrompt word ctx)) = Inl err \<longrightarrow>
             snd (getWordDefinition e generateContent response word ctx) = Inl (Some err)))
   \<and> (withRetry_default (primaryAttempt e generateContent) = (tr, Inl geminiError) \<and>
      \<not> isSet (DEEPSEEK_API_KEY e) \<longrightarrow>
      getWordDefinition e generateContent response word ctx = (tr, Inl geminiError)
      \<and> fetches (fst (getWordDefinition e generateContent response word ctx)) = 0)
   \<and> ((isSuccess (getWordDefinition e generateContent response word ctx)
         \<and> \<not> isPrimaryFailedNoFallback (getWordDefinition e generateContent response word ctx)
         \<and> \<not> isFallbackFailed (getWordDefinition e generateContent response word ctx))
       \<or> (\<not> isSuccess (getWordDefinition e generateContent response word ctx)
         \<and> isPrimaryFailedNoFallback (getWordDefinition e generateContent response word ctx)
         \<and> \<not> isFallbackFailed (getWordDefinition e generateContent response word ctx)
         \<and> \<not> isSet (DEEPSEEK_API_KEY e))
       \<or> (\<not> isSuccess (getWordDefinition e generateContent response word ctx)
         \<and> \<not> isPrimaryFailedNoFallback (getWordDefinition e generateContent response word ctx)
         \<and> isFallbackFailed (getWordDefinition e generateContent response word ctx)
         \<and> isSet (DEEPSEEK_API_KEY e)))
   \<and> (withRetry_default (primaryAttempt e generateContent) = (tr, Inl geminiError) \<and>
      isSet (DEEPSEEK_API_KEY e) \<longrightarrow>
      (\<forall>err. response = Rejected err \<longrightarrow>
         getWordDefinition e generateContent response word ctx
           = (tr @ [DeepSeekFetch ''You are an English dictionary API. Output purely JSON.''
                      (definePrompt word ctx)],
              Inl (Some err)))
      \<and> (\<forall>statusText content. response = Response False statusText content \<longrightarrow>
         getWordDefinition e generateContent response word ctx
           = (tr @ [DeepSeekFetch ''You are an English dictionary API. Output purely JSON.''
                      (definePrompt word ctx)],
              Inl (Some (Error (Some (''DeepSeek API Error: '' @ statusText))))))
      \<and> (\<forall>statusText err. response = Response True statusText (Inl err) \<longrightarrow>
         getWordDefinition e generateContent response word ctx
           = (tr @ [DeepSeekFetch ''You are an English dictionary API. Output purely JSON.''
                      (definePrompt word ctx)],
              Inl (Some err)))
      \<and> (\<forall>statusText reply. response = Response True statusText (Inr reply) \<longrightarrow>
         getWordDefinition e generateContent response word ctx
           = (tr @ [DeepSeekFetch ''You are an English dictionary API. Output purely JSON.''
                      (definePrompt word ctx)] @ fst (cleanAndParseJson reply),
              map_sum Some id (snd (cleanAndParseJson reply))))
      \<and> (\<forall>statusText t v. response = Response True statusText (Inr (Some t)) \<and>
           JSON_parse (stripTrailingFence (stripLeadingFence t)) = Some v \<longrightarrow>
         snd (getWordDefinition e generateContent response word ctx) = Inr v)
      \<and> (\<forall>statusText t. response = Response True statusText (Inr (Some t)) \<and>
           JSON_parse (stripTrailingFence (stripLeadingFence t)) = None \<longrightarrow>
         snd (getWordDefinition e generateContent response word ctx) = Inl (Some parseFailure)))
   \<and> (\<forall>v. withRetry_default (primaryAttempt e generateContent) = (tr, Inr v) \<longrightarrow>
        getWordDefinition e generateContent response word ctx = (tr, Inr v))"
proof -
  let ?run = "getWordDefinition e generateContent response word ctx"
  let ?fb = "fallbackAttempt e response (definePrompt word ctx)"
  have p0: "fetches (fst (withRetry_default (primaryAttempt e generateContent))) = 0"
    by (rule fetches_withRetry_default)
  have A: "fetches (fst ?run) = 1
      \<and> DeepSeekFetch ''You are an English dictionary API. Output purely JSON.'' (definePrompt word ctx)
           \<in> set (fst ?run)
      \<and> (\<forall>v. snd ?fb = Inr v \<longrightarrow> snd ?run = Inr v)
      \<and> (\<forall>err. snd ?fb = Inl err \<longrightarrow> snd ?run = Inl (Some err))"
    if h: "withRetry_default (primaryAttempt e generateContent) = (tr, Inl geminiError)"
      "isSet (DEEPSEEK_API_KEY e)"
  proof -
    have run: "?run = (tr @ fst ?fb, map_sum Some id (snd ?fb))"
      by (rule getWordDefinition_fallback_run[OF h])
    have "fetches tr = 0" using p0 h(1) by simp
    then show ?thesis
      using fetches_fallbackAttempt[OF h(2), of response "definePrompt word ctx"]
      by (simp add: run fetches_append)
  qed
  have B: "?run = (tr, Inl geminiError) \<and> fetches (fst ?run) = 0"
    if h: "withRetry_default (primaryAttempt e generateContent) = (tr, Inl geminiError)"
      "\<not> isSet (DEEPSEEK_API_KEY e)"
    using getWordDefinition_no_fallback[OF h] p0 h(1) by simp
  have C: "(isSuccess ?run \<and> \<not> isPrimaryFailedNoFallback ?run \<and> \<not> isFallbackFailed ?run)
       \<or> (\<not> isSuccess ?run \<and> isPrimaryFailedNoFallback ?run \<and> \<not> isFallbackFailed ?run
            \<and> \<not> isSet (DEEPSEEK_API_KEY e))
       \<or> (\<not> isSuccess ?run \<and> \<not> isPrimaryFailedNoFallback ?run \<and> isFallbackFailed ?run
            \<and> isSet (DEEPSEEK_API_KEY e))"
  proof -
    obtain t0 r0 where w: "withRetry_default (primaryAttempt e generateContent) = (t0, r0)"
      by (cases "withRetry_default (primaryAttempt e generateContent)")
    show ?thesis
    proof (cases r0)
      case (Inr v)
      then have "?run = (t0, Inr v)" using w by (simp add: getWordDefinition_primary_ok)
      then show ?thesis
        by (simp add: isSuccess_def isPrimaryFailedNoFallback_def isFallbackFailed_def)
    next
      case (Inl gErr)
      have t0: "fetches t0 = 0" using p0 w by simp
      show ?thesis
      proof (cases "isSet (DEEPSEEK_API_KEY e)")
        case False
        have "?run = (t0, Inl gErr)"
          using getWordDefinition_no_fallback[of e generateContent t0 gErr] w Inl False by simp
        then show ?thesis
          using t0 False by (simp add: isSuccess_def isPrimaryFailedNoFallback_def isFallbackFailed_def)
      next
        case True
        have run: "?run = (t0 @ fst ?fb, map_sum Some id (snd ?fb))"
          using getWordDefinition_fallback_run[of e generateContent t0 gErr] w Inl True by simp
        have f1: "fetches (fst ?fb) = 1"
          using fetches_fallbackAttempt[OF True] by simp
        show ?thesis
          using t0 f1 True
          by (cases "snd ?fb")
             (simp_all add: run fetches_append isSuccess_def isPrimaryFailedNoFallback_def
                isFallbackFailed_def)
      qed
    qed
  qed
  have D: "(\<forall>err. response = Rejected err \<longrightarrow>
         ?run = (tr @ [DeepSeekFetch ''You are an English dictionary API. Output purely JSON.''
                      (definePrompt word ctx)],
              Inl (Some err)))
      \<and> (\<forall>statusText content. response = Response False statusText content \<longrightarrow>
         ?run = (tr @ [DeepSeekFetch ''You are an English dictionary API. Output purely JSON.''
                      (definePrompt word ctx)],
              Inl (Some (Error (Some (''DeepSeek API Error: '' @ statusText))))))
      \<and> (\<forall>statusText err. response = Response True statusText (Inl err) \<longrightarrow>
         ?run = (tr @ [DeepSeekFetch ''You are an English dictionary API. Output purely JSON.''
                      (definePrompt word ctx)],
              Inl (Some err)))
      \<and> (\<forall>statusText reply. response = Response True statusText (Inr reply) \<longrightarrow>
         ?run = (tr @ [DeepSeekFetch ''You are an English dictionary API. Output purely JSON.''
                      (definePrompt word ctx)] @ fst (cleanAndParseJson reply),
              map_sum Some id (snd (cleanAndParseJson reply))))
      \<and> (\<forall>statusText t v. response = Response True statusText (Inr (Some t)) \<and>
           JSON_parse (stripTrailingFence (stripLeadingFence t)) = Some v \<longrightarrow>
         snd ?run = Inr v)
      \<and> (\<forall>statusText t. response = Response True statusText (Inr (Some t)) \<and>
           JSON_parse (stripTrailingFence (stripLeadingFence t)) = None \<longrightarrow>
         snd ?run = Inl (Some parseFailure))"
    if h: "withRetry_default (primaryAttempt e generateContent) = (tr, Inl geminiError)"
      "isSet (DEEPSEEK_API_KEY e)"
  proof -
    have run: "?run = (tr @ fst ?fb, map_sum Some id (snd ?fb))"
      by (rule getWordDefinition_fallback_run[OF h])
    have r1: "?fb = ([DeepSeekFetch ''You are an English dictionary API. Output purely JSON.''
                      (definePrompt word ctx)], Inl err)"
      if "response = Rejected err" for err
      using that h(2) by (simp add: fallbackAttempt_def callDeepSeek_def)
    have r2: "?fb = ([DeepSeekFetch ''You are an English dictionary API. Output purely JSON.''
                      (definePrompt word ctx)],
                     Inl (Error (Some (''DeepSeek API Error: '' @ statusText))))"
      if "response = Response False statusText content" for statusText content
      using that h(2) by (simp add: fallbackAttempt_def callDeepSeek_def)
    have r3: "?fb = ([DeepSeekFetch ''You are an English dictionary API. Output purely JSON.''
                      (definePrompt word ctx)], Inl err)"
      if "response = Response True statusText (Inl err)" for statusText err
      using that h(2) by (simp add: fallbackAttempt_def callDeepSeek_def)
    have r4: "?fb = ([DeepSeekFetch ''You are an English dictionary API. Output purely JSON.''
                      (definePrompt word ctx)] @ fst (cleanAndParseJson reply),
                     snd (cleanAndParseJson reply))"
      if "response = Response True statusText (Inr reply)" for statusText reply
      using that h(2)
      by (cases "cleanAndParseJson reply") (simp add: fallbackAttempt_def callDeepSeek_def)
    have c1: "snd (cleanAndParseJson (Some t)) = Inr v"
      if "JSON_parse (stripTrailingFence (stripLeadingFence t)) = Some v" for t v
      using that by (simp add: cleanAndParseJson_def)
    have c2: "snd (cleanAndParseJson (Some t)) = Inl parseFailure"
      if "JSON_parse (stripTrailingFence (stripLeadingFence t)) = None" for t
      using that by (simp add: cleanAndParseJson_def)
    have d1: "?run = (tr @ [DeepSeekFetch ''You are an English dictionary API. Output purely JSON.''
                      (definePrompt word ctx)], Inl (Some err))"
      if "response = Rejected err" for err
      using run r1[OF that] by simp
    have d2: "?run = (tr @ [DeepSeekFetch ''You are an English dictionary API. Output purely JSON.''
                      (definePrompt word ctx)],
                     Inl (Some (Error (Some (''DeepSeek API Error: '' @ statusText)))))"
      if "response = Response False statusText content" for statusText content
      using run r2[OF that] by simp
    have d3: "?run = (tr @ [DeepSeekFetch ''You are an English dictionary API. Output purely JSON.''
                      (definePrompt word ctx)], Inl (Some err))"
      if "response = Response True statusText (Inl err)" for statusText err
      using run r3[OF that] by simp
    have d4: "?run = (tr @ [DeepSeekFetch ''You are an English dictionary API. Output purely JSON.''
                      (definePrompt word ctx)] @ fst (cleanAndParseJson reply),
                     map_sum Some id (snd (cleanAndParseJson reply)))"
      if "response = Response True statusText (Inr reply)" for statusText reply
      using run r4[OF that] by simp
    have d5: "snd ?run = Inr v"
      if "response = Response True statusText (Inr (Some t))"
        "JSON_parse (stripTrailingFence (stripLeadingFence t)) = Some v" for statusText t v
      using d4[OF that(1)] c1[OF that(2)] by simp
    have d6: "snd ?run = Inl (Some parseFailure)"
      if "response = Response True statusText (Inr (Some t))"
        "JSON_parse (stripTrailingFence (stripLeadingFence t)) = None" for statusText t
      using d4[OF that(1)] c2[OF that(2)] by simp
    show ?thesis
      using d1 d2 d3 d4 d5 d6 by blast
  qed
  have E: "\<forall>v. withRetry_default (primaryAttempt e generateContent) = (tr, Inr v) \<longrightarrow>
        ?run = (tr, Inr v)"
    by (simp add: getWordDefinition_primary_ok)
  from A B C D E show ?thesis by blast
qed

theorem getWordDefinition_fallback_witness:
  "snd (getWordDefinition \<lparr>API_KEY = Some ''k1'', DEEPSEEK_API_KEY = Some ''k2''\<rparr>
          (\<lambda>i. Inl (Error (Some ''401 Unauthorized'')))
          (Response False ''Too Many Requests'' (Inr None)) ''word'' ''a word'')
     = Inl (Some (Error (Some ''DeepSeek API Error: Too Many Requests'')))
   \<and> fetches (fst (getWordDefinition \<lparr>API_KEY = Some ''k1'', DEEPSEEK_API_KEY = Some ''k2''\<rparr>
          (\<lambda>i. Inl (Error (Some ''401 Unauthorized'')))
          (Response False ''Too Many Requests'' (Inr None)) ''word'' ''a word'')) = 1
   \<and> getWordDefinition \<lparr>API_KEY = Some ''k1'', DEEPSEEK_API_KEY = None\<rparr>
          (\<lambda>i. Inl (Error (Some ''401 Unauthorized'')))
          (Response False ''Too Many Requests'' (Inr None)) ''word'' ''a word''
     = ([Attempt 0 []], Inl (Some (Error (Some ''401 Unauthorized''))))
   \<and> getWordDefinition \<lparr>API_KEY = Some ''k1'', DEEPSEEK_API_KEY = Some ''k2''\<rparr>
          (\<lambda>i. Inl (Error (Some ''401 Unauthorized'')))
          (Response True ''OK'' (Inr (Some ''{\"word\":\"cat\"}''))) ''cat'' ''a cat''
     = ([Attempt 0 [],
         DeepSeekFetch ''You are an English dictionary API. Output purely JSON.''
           (definePrompt ''cat'' ''a cat'')],
        Inr (JObject [(''word'', JStr ''cat'')]))
   \<and> snd (getWordDefinition \<lparr>API_KEY = Some ''k1'', DEEPSEEK_API_KEY = Some ''k2''\<rparr>
          (\<lambda>i. Inl (Error (Some ''401 Unauthorized'')))
          (Response True ''OK'' (Inr (Some ''Sorry, no JSON''))) ''cat'' ''a cat'')
     = Inl (Some parseFailure)"
proof -
  let ?e2 = "\<lparr>API_KEY = Some ''k1'', DEEPSEEK_API_KEY = Some ''k2''\<rparr>"
  let ?e1 = "\<lparr>API_KEY = Some ''k1'', DEEPSEEK_API_KEY = None\<rparr>"
  let ?g = "\<lambda>i::nat. Inl (Error (Some ''401 Unauthorized'')) :: js_error + string option"
  let ?r = "Response False ''Too Many Requests'' (Inr None)"
  let ?ok = "Response True ''OK'' (Inr (Some ''{\"word\":\"cat\"}''))"
  let ?bad = "Response True ''OK'' (Inr (Some ''Sorry, no JSON''))"
  let ?tr = "[Attempt 0 []]"
  let ?ge = "Some (Error (Some ''401 Unauthorized''))"
  have n: "\<not> isInternalError (Error (Some ''401 Unauthorized''))"
    by (simp add: isInternalError_def string_eval)
  have p: "withRetry_default (primaryAttempt e ?g) = (?tr, Inl ?ge)"
    if "isSet (API_KEY e)" for e
    using that n
    by (simp add: withRetry_default_def withRetry_def withRetry_loop.simps[of _ 3 0]
          primaryAttempt_def getAi_def)
  have p2: "withRetry_default (primaryAttempt ?e2 ?g) = (?tr, Inl ?ge)"
    by (rule p) (simp add: isSet_def)
  have p1: "withRetry_default (primaryAttempt ?e1 ?g) = (?tr, Inl ?ge)"
    by (rule p) (simp add: isSet_def)
  have k2: "isSet (DEEPSEEK_API_KEY ?e2)" and k1: "\<not> isSet (DEEPSEEK_API_KEY ?e1)"
    by (simp_all add: isSet_def)
  have f: "snd (fallbackAttempt ?e2 ?r (definePrompt ''word'' ''a word''))
             = Inl (Error (Some ''DeepSeek API Error: Too Many Requests''))"
    by (simp add: fallbackAttempt_def callDeepSeek_def isSet_def)
  have c: "cleanAndParseJson (Some ''{\"word\":\"cat\"}'') = ([], Inr (JObject [(''word'', JStr ''cat'')]))"
    by code_simp
  have j: "JSON_parse (stripTrailingFence (stripLeadingFence ''Sorry, no JSON'')) = None"
    by code_simp
  note T2 = getWordDefinition_fallback[of ?e2 ?g ?tr ?ge ?r "''word''" "''a word''",
              THEN conjunct1, rule_format, OF conjI[OF p2 k2]]
  note T1 = getWordDefinition_fallback[of ?e1 ?g ?tr ?ge ?r "''word''" "''a word''",
              THEN conjunct2, THEN conjunct1, rule_format, OF conjI[OF p1 k1]]
  note Tok = getWordDefinition_fallback[of ?e2 ?g ?tr ?ge ?ok "''cat''" "''a cat''",
              THEN conjunct2, THEN conjunct2, THEN conjunct2, THEN conjunct1, rule_format,
              OF conjI[OF p2 k2]]
  note Tbad = getWordDefinition_fallback[of ?e2 ?g ?tr ?ge ?bad "''cat''" "''a cat''",
              THEN conjunct2, THEN conjunct2, THEN conjunct2, THEN conjunct1, rule_format,
              OF conjI[OF p2 k2]]
  have a: "snd (getWordDefinition ?e2 ?g ?r ''word'' ''a word'')
             = Inl (Some (Error (Some ''DeepSeek API Error: Too Many Requests'')))"
    using T2[THEN conjunct2, THEN conjunct2, THEN conjunct2, rule_format, OF f] .
  have b: "fetches (fst (getWordDefinition ?e2 ?g ?r ''word'' ''a word'')) = 1"
    using T2[THEN conjunct1] .
  have c1: "getWordDefinition ?e1 ?g ?r ''word'' ''a word'' = (?tr, Inl ?ge)"
    using T1[THEN conjunct1] .
  have d: "getWordDefinition ?e2 ?g ?ok ''cat'' ''a cat''
     = ([Attempt 0 [],
         DeepSeekFetch ''You are an English dictionary API. Output purely JSON.''
           (definePrompt ''cat'' ''a cat'')],
        Inr (JObject [(''word'', JStr ''cat'')]))"
    using Tok[THEN conjunct2, THEN conjunct2, THEN conjunct2, THEN conjunct1, rule_format, OF refl]
    by (simp add: c)
  have e: "snd (getWordDefinition ?e2 ?g ?bad ''cat'' ''a cat'') = Inl (Some parseFailure)"
    using Tbad[THEN conjunct2, THEN conjunct2, THEN conjunct2, THEN conjunct2, THEN conjunct2,
               rule_format, OF conjI[OF refl j]] .
  from a b c1 d e show ?thesis by (intro conjI)
qed

end
